theory Spec2Isabelle
  imports Main
begin

section \<open>The scenario codec of the Little's Law simulator\<close>

text \<open>
  A shallow embedding of \<^verbatim>\<open>utils/codec\<close>: the bit stream writer and reader, the
  base-64 text transform, and the scenario format built on them
  (\<^verbatim>\<open>generateScenarioCode\<close>, \<^verbatim>\<open>parseScenarioCode\<close>).

  Conventions of the model.
  \<^item> A JavaScript string is a \<open>string\<close>, a list of characters. Characters are the code
    units up to U+00FF; the code units above are no member of the alphabet, and the
    decoder treats them as it treats the characters modelled here (white space is
    removed, anything else is an invalid character).
  \<^item> A \<^verbatim>\<open>number\<close> that the codec reads from a step (batch size, cycle time, set-up
    time) is a natural number: the data model of the format is unsigned integers.
    Fractions and negative numbers are outside the model.
  \<^item> An exception is a value of the type \<open>error\<close>: a function that can throw returns
    \<open>error + 'a\<close>, and \<^verbatim>\<open>try { ... } catch\<close> is a case distinction on that sum.
  \<^item> A mutable object (the writer, the reader) is a record that each method takes and
    returns.
\<close>

subsection \<open>Types and constants\<close>

text \<open>
  Modelled from the spec: the types \<^verbatim>\<open>TimeUnit\<close> and \<^verbatim>\<open>StepParameters\<close> are imported from
  \<^verbatim>\<open>types\<close>, which is not part of the sources at hand. The time unit is one of
  Seconds, Minutes and Hours (the keys of the encoder's \<^verbatim>\<open>unitMap\<close>). A step has the
  fields that the encoder and the step control read: the four fields of a decoded step
  and the two batch fields, which the record extension expresses. The element type of
  \<^verbatim>\<open>ScenarioData.steps\<close> is declared in the codec itself.
\<close>

datatype TimeUnit = Seconds | Minutes | Hours

record ScenarioStep =
  cycleTime :: nat
  setupTime :: nat
  isSetupLocked :: bool
  isCycleLocked :: bool

record StepParameters = ScenarioStep +
  batchSize :: nat
  isBatchLocked :: bool

record ScenarioData =
  timeUnit :: TimeUnit
  steps :: "ScenarioStep list"
  globalBatchSize :: nat
  globalBatchLocked :: bool

text \<open>
  Modelled from the spec: the constants \<^verbatim>\<open>MIN_STEPS\<close> and \<^verbatim>\<open>MAX_STEPS\<close> are imported
  from \<^verbatim>\<open>constants\<close>, which is not part of the sources at hand. The specification gives
  the range of the step count as 2..5, and so does the codec's own comment on the layout
  (\<^verbatim>\<open>StepCount: 2 bits (Value = count - 2. Supports 2..5)\<close>).
\<close>

definition MIN_STEPS :: nat where
  "MIN_STEPS = 2"

definition MAX_STEPS :: nat where
  "MAX_STEPS = 5"

datatype error = UnexpectedEndOfData | InvalidCharacter

subsection \<open>JavaScript built-ins the codec calls\<close>

definition bitChar :: "nat \<Rightarrow> char" where
  "bitChar d = (if d = 0 then CHR ''0'' else CHR ''1'')"

text \<open>\<^verbatim>\<open>n.toString(2)\<close> for a non-negative integer: the binary digits, most significant
  first, with no leading zero (\<^verbatim>\<open>"0"\<close> for zero).\<close>

fun toString2 :: "nat \<Rightarrow> string" where
  "toString2 n = (if n < 2 then [bitChar n] else toString2 (n div 2) @ [bitChar (n mod 2)])"

declare toString2.simps [simp del]

definition isBit :: "char \<Rightarrow> bool" where
  "isBit c = (c = CHR ''0'' \<or> c = CHR ''1'')"

text \<open>
  \<^verbatim>\<open>parseInt(s, 2)\<close> on a string that begins with a binary digit: the value of its
  leading run of binary digits. Every string the codec passes to \<^verbatim>\<open>parseInt\<close> is a
  non-empty string of binary digits (lemmas \<open>BitWriter_write_bits\<close> and
  \<open>base64ToBinaryString_bits\<close> below), so the results \<^verbatim>\<open>NaN\<close> (no leading digit) and
  the skipping of a sign or of leading white space never arise; on such strings, which
  are outside the model, this function returns the value of the empty run, 0.
\<close>

definition parseInt2 :: "string \<Rightarrow> nat" where
  "parseInt2 s = foldl (\<lambda>acc c. 2 * acc + (if c = CHR ''1'' then 1 else 0)) 0 (takeWhile isBit s)"

text \<open>\<^verbatim>\<open>s.substring(a, b)\<close>: both indices are clamped to the length and swapped when
  \<open>a > b\<close>.\<close>

definition substring :: "string \<Rightarrow> nat \<Rightarrow> nat \<Rightarrow> string" where
  "substring s a b =
     (let a' = min a (length s); b' = min b (length s);
          lo = min a' b'; hi = max a' b'
      in take (hi - lo) (drop lo s))"

text \<open>\<^verbatim>\<open>s.slice(-w)\<close>: the last \<open>w\<close> characters; \<^verbatim>\<open>-0\<close> is \<^verbatim>\<open>0\<close>, so \<^verbatim>\<open>s.slice(-0)\<close> is
  the whole string.\<close>

definition slice_last :: "string \<Rightarrow> nat \<Rightarrow> string" where
  "slice_last s w = (if w = 0 then s else drop (length s - w) s)"

text \<open>\<^verbatim>\<open>s.indexOf(c)\<close> for a single character: the first position of \<open>c\<close>, \<open>None\<close> for
  the result \<^verbatim>\<open>-1\<close>.\<close>

fun indexOf :: "string \<Rightarrow> char \<Rightarrow> nat option" where
  "indexOf [] c = None"
| "indexOf (x # xs) c = (if x = c then Some 0 else map_option Suc (indexOf xs c))"

text \<open>The characters that \<^verbatim>\<open>trim()\<close> strips and that \<^verbatim>\<open>\s\<close> matches: tab, line feed,
  vertical tab, form feed, carriage return, space and the no-break space.\<close>

definition isSpace :: "char \<Rightarrow> bool" where
  "isSpace c = (c \<in> {CHR 0x09, CHR 0x0A, CHR 0x0B, CHR 0x0C, CHR 0x0D, CHR 0x20, CHR 0xA0})"

definition trim :: "string \<Rightarrow> string" where
  "trim s = rev (dropWhile isSpace (rev (dropWhile isSpace s)))"

text \<open>\<^verbatim>\<open>s.replace(/\s/g, '')\<close>\<close>

definition removeSpaces :: "string \<Rightarrow> string" where
  "removeSpaces s = filter (\<lambda>c. \<not> isSpace c) s"

subsection \<open>BitWriter\<close>

record BitWriter =
  bits :: string

definition BitWriter_new :: BitWriter where
  "BitWriter_new = \<lparr>BitWriter.bits = ''''\<rparr>"

text \<open>The loop \<^verbatim>\<open>while (binary.length < width) binary = "0" + binary\<close>.\<close>

function padZeros :: "string \<Rightarrow> nat \<Rightarrow> string" where
  "padZeros binary width =
     (if length binary < width then padZeros (CHR ''0'' # binary) width else binary)"
  by pat_completeness auto
termination
  by (relation "measure (\<lambda>(binary, width). width - length binary)") auto

declare padZeros.simps [simp del]

definition BitWriter_write :: "BitWriter \<Rightarrow> nat \<Rightarrow> nat \<Rightarrow> BitWriter" where
  "BitWriter_write w val width =
     (let binary = toString2 val;
          binary = (if length binary > width then slice_last binary width else binary);
          binary = padZeros binary width
      in w\<lparr>BitWriter.bits := BitWriter.bits w @ binary\<rparr>)"

definition BitWriter_getData :: "BitWriter \<Rightarrow> string" where
  "BitWriter_getData w = BitWriter.bits w"

subsection \<open>BitReader\<close>

record BitReader =
  bits :: string
  pointer :: nat

definition BitReader_new :: "string \<Rightarrow> BitReader" where
  "BitReader_new b = \<lparr>BitReader.bits = b, pointer = 0\<rparr>"

definition BitReader_read :: "BitReader \<Rightarrow> nat \<Rightarrow> error + (nat \<times> BitReader)" where
  "BitReader_read r width =
     (if pointer r + width > length (BitReader.bits r) then Inl UnexpectedEndOfData
      else
        let chunk = substring (BitReader.bits r) (pointer r) (pointer r + width)
        in Inr (parseInt2 chunk, r\<lparr>pointer := pointer r + width\<rparr>))"

definition BitReader_hasMore :: "BitReader \<Rightarrow> bool" where
  "BitReader_hasMore r = (pointer r < length (BitReader.bits r))"

subsection \<open>The base-64 text transform\<close>

definition CHARS :: string where
  "CHARS = ''ABCDEFGHIJKLMNOPQRSTUVWXYZabcdefghijklmnopqrstuvwxyz0123456789-_''"

text \<open>\<^verbatim>\<open>result += CHARS[index]\<close>: an index outside the string reads \<^verbatim>\<open>undefined\<close>, which
  the concatenation renders as a word.\<close>

definition CHARS_at :: "nat \<Rightarrow> string" where
  "CHARS_at index = (if index < length CHARS then [CHARS ! index] else ''undefined'')"

text \<open>The loop \<^verbatim>\<open>while (binary.length % 6 !== 0) binary += "0"\<close>.\<close>

function pad6 :: "string \<Rightarrow> string" where
  "pad6 binary = (if length binary mod 6 \<noteq> 0 then pad6 (binary @ ''0'') else binary)"
  by pat_completeness auto
termination
proof (relation "measure (\<lambda>binary. (6 - length binary mod 6) mod 6)")
  show "wf (measure (\<lambda>binary::string. (6 - length binary mod 6) mod 6))"
    by simp
next
  fix binary :: string
  assume a: "length binary mod 6 \<noteq> 0"
  define m where "m = length binary mod 6"
  have m: "m < 6" "0 < m"
    using a by (simp_all add: m_def)
  have "Suc (length binary) mod 6 = (if Suc m = 6 then 0 else Suc m)"
    unfolding m_def by (rule mod_Suc)
  with m have "(6 - Suc (length binary) mod 6) mod 6 < (6 - m) mod 6"
    by (auto split: if_splits)
  then show "(binary @ ''0'', binary) \<in> measure (\<lambda>binary. (6 - length binary mod 6) mod 6)"
    by (simp add: m_def)
qed

declare pad6.simps [simp del]

text \<open>The loop \<^verbatim>\<open>for (let i = 0; i < binary.length; i += 6)\<close>, with the loop variable and
  the result built so far as arguments.\<close>

function segments :: "string \<Rightarrow> nat \<Rightarrow> string \<Rightarrow> string" where
  "segments binary i result =
     (if i < length binary
      then
        let segment = substring binary i (i + 6);
            index = parseInt2 segment
        in segments binary (i + 6) (result @ CHARS_at index)
      else result)"
  by pat_completeness auto
termination
  by (relation "measure (\<lambda>(binary, i, result). length binary - i)") auto

declare segments.simps [simp del]

definition binaryStringToBase64 :: "string \<Rightarrow> string" where
  "binaryStringToBase64 binary = segments (pad6 binary) 0 ''''"

text \<open>The loop of \<^verbatim>\<open>base64ToBinaryString\<close> over the characters of its argument, with the
  characters still to visit and the binary string built so far as arguments.\<close>

fun symbols :: "string \<Rightarrow> string \<Rightarrow> error + string" where
  "symbols [] binary = Inr binary"
| "symbols (char # rest) binary =
     (case indexOf CHARS char of
        None \<Rightarrow> Inl InvalidCharacter
      | Some index \<Rightarrow> symbols rest (binary @ padZeros (toString2 index) 6))"

definition base64ToBinaryString :: "string \<Rightarrow> error + string" where
  "base64ToBinaryString base64 = symbols base64 ''''"

subsection \<open>The scenario format\<close>

definition unitMap :: "TimeUnit \<Rightarrow> nat" where
  "unitMap u = (case u of Seconds \<Rightarrow> 0 | Minutes \<Rightarrow> 1 | Hours \<Rightarrow> 2)"

text \<open>The body of \<^verbatim>\<open>steps.forEach\<close>.\<close>

definition writeStep :: "BitWriter \<Rightarrow> StepParameters \<Rightarrow> BitWriter" where
  "writeStep writer step =
     (let writer = BitWriter_write writer (min (cycleTime step) 31) 5;
          writer = BitWriter_write writer (min (setupTime step) 127) 7;
          writer = BitWriter_write writer (if isCycleLocked step then 1 else 0) 1;
          writer = BitWriter_write writer (if isSetupLocked step then 1 else 0) 1
      in writer)"

text \<open>
  \<^verbatim>\<open>steps[0]?.batchSize || 10\<close> is 10 when there is no first step and when its batch size
  is falsy, that is 0; \<^verbatim>\<open>steps[0]?.isBatchLocked ? 1 : 0\<close> is 0 when there is no first
  step.
\<close>

definition generateScenarioCode :: "StepParameters list \<Rightarrow> TimeUnit \<Rightarrow> string" where
  "generateScenarioCode stepList unit =
     (let writer = BitWriter_new;
          writer = BitWriter_write writer 1 2;
          writer = BitWriter_write writer (unitMap unit) 2;
          count = min (max (length stepList) MIN_STEPS) MAX_STEPS;
          writer = BitWriter_write writer (count - MIN_STEPS) 2;
          batch = (case stepList of
                     [] \<Rightarrow> 10
                   | s # _ \<Rightarrow> if batchSize s = 0 then 10 else batchSize s);
          writer = BitWriter_write writer (min batch 63) 6;
          batchLocked = (case stepList of
                           [] \<Rightarrow> 0
                         | s # _ \<Rightarrow> if isBatchLocked s then 1 else (0::nat));
          writer = BitWriter_write writer batchLocked 1;
          writer = foldl writeStep writer stepList
      in binaryStringToBase64 (BitWriter_getData writer))"

definition timeUnits :: "TimeUnit list" where
  "timeUnits = [Seconds, Minutes, Hours]"

text \<open>The loop \<^verbatim>\<open>for (let i = 0; i < stepCount; i++)\<close> of the decoder; the first argument
  is the number of iterations still to run, \<open>stepCount - i\<close>.\<close>

fun readSteps :: "nat \<Rightarrow> BitReader \<Rightarrow> ScenarioStep list \<Rightarrow> error + (ScenarioStep list \<times> BitReader)" where
  "readSteps 0 reader stepsData = Inr (stepsData, reader)"
| "readSteps (Suc n) reader stepsData =
     (case BitReader_read reader 5 of
        Inl e \<Rightarrow> Inl e
      | Inr (cycle, reader) \<Rightarrow>
     (case BitReader_read reader 7 of
        Inl e \<Rightarrow> Inl e
      | Inr (setup, reader) \<Rightarrow>
     (case BitReader_read reader 1 of
        Inl e \<Rightarrow> Inl e
      | Inr (cycleLock, reader) \<Rightarrow>
     (case BitReader_read reader 1 of
        Inl e \<Rightarrow> Inl e
      | Inr (setupLock, reader) \<Rightarrow>
        readSteps n reader
          (stepsData @ [\<lparr>cycleTime = cycle, setupTime = setup,
                         isSetupLocked = (setupLock = 1), isCycleLocked = (cycleLock = 1)\<rparr>])))))"

text \<open>The body of the \<^verbatim>\<open>try\<close> block: \<open>Inl\<close> is an exception thrown, \<open>Inr None\<close> is
  \<^verbatim>\<open>return null\<close>.\<close>

definition parseScenarioCode_try :: "string \<Rightarrow> error + ScenarioData option" where
  "parseScenarioCode_try code =
     (let cleanCode = removeSpaces (trim code) in
      if cleanCode = [] then Inr None
      else
     (case base64ToBinaryString cleanCode of
        Inl e \<Rightarrow> Inl e
      | Inr binary \<Rightarrow>
     (case BitReader_read (BitReader_new binary) 2 of
        Inl e \<Rightarrow> Inl e
      | Inr (version, reader) \<Rightarrow>
      if version \<noteq> 1 then Inr None
      else
     (case BitReader_read reader 2 of
        Inl e \<Rightarrow> Inl e
      | Inr (unitVal, reader) \<Rightarrow>
      if unitVal > 2 then Inr None
      else
     (case BitReader_read reader 2 of
        Inl e \<Rightarrow> Inl e
      | Inr (countOffset, reader) \<Rightarrow>
     (case BitReader_read reader 6 of
        Inl e \<Rightarrow> Inl e
      | Inr (batch, reader) \<Rightarrow>
     (case BitReader_read reader 1 of
        Inl e \<Rightarrow> Inl e
      | Inr (batchLock, reader) \<Rightarrow>
     (case readSteps (countOffset + MIN_STEPS) reader [] of
        Inl e \<Rightarrow> Inl e
      | Inr (stepsData, reader) \<Rightarrow>
        Inr (Some \<lparr>timeUnit = timeUnits ! unitVal, steps = stepsData,
                   globalBatchSize = batch, globalBatchLocked = (batchLock = 1)\<rparr>)))))))))"

text \<open>\<^verbatim>\<open>catch (e) { return null; }\<close>\<close>

definition parseScenarioCode :: "string \<Rightarrow> ScenarioData option" where
  "parseScenarioCode code =
     (case parseScenarioCode_try code of Inl e \<Rightarrow> None | Inr result \<Rightarrow> result)"

section \<open>Notions for stating and proving the properties\<close>

subsection \<open>Fixed-width fields\<close>

text \<open>The \<open>w\<close> lowest binary digits of \<open>v\<close>, most significant first: the field that the
  specification asks \<^verbatim>\<open>write(v, w)\<close> to append.\<close>

fun binField :: "nat \<Rightarrow> nat \<Rightarrow> string" where
  "binField 0 v = []"
| "binField (Suc w) v = binField w (v div 2) @ [bitChar (v mod 2)]"

text \<open>The value of a string of binary digits.\<close>

definition binValue :: "string \<Rightarrow> nat" where
  "binValue s = foldl (\<lambda>acc c. 2 * acc + (if c = CHR ''1'' then 1 else 0)) 0 s"

text \<open>The string that \<^verbatim>\<open>BitWriter.write\<close> builds from its arguments before it appends it.\<close>

definition fieldBits :: "nat \<Rightarrow> nat \<Rightarrow> string" where
  "fieldBits val width =
     (let binary = toString2 val;
          binary = (if length binary > width then slice_last binary width else binary)
      in padZeros binary width)"

subsection \<open>The text transform in the specification's words\<close>

text \<open>
  ``Pad the bit sequence on the right with zero bits until its length is a multiple of 6;
  partition into consecutive 6-bit groups in original order; map each group's integer
  value (0..63) to the alphabet character at that index; concatenate.''
\<close>

definition spec_pad6 :: "string \<Rightarrow> string" where
  "spec_pad6 b = b @ replicate ((6 - length b mod 6) mod 6) (CHR ''0'')"

fun groups6 :: "string \<Rightarrow> string list" where
  "groups6 [] = []"
| "groups6 (x # xs) = take 6 (x # xs) # groups6 (drop 6 (x # xs))"

declare groups6.simps(2) [simp del]

definition spec_binaryStringToBase64 :: "string \<Rightarrow> string" where
  "spec_binaryStringToBase64 b = map (\<lambda>g. CHARS ! parseInt2 g) (groups6 (spec_pad6 b))"

text \<open>A character of the alphabet, and the six bits that the decoding loop appends for
  it.\<close>

definition validChar :: "char \<Rightarrow> bool" where
  "validChar c = (indexOf CHARS c \<noteq> None)"

definition sixBits :: "char \<Rightarrow> string" where
  "sixBits c = (case indexOf CHARS c of None \<Rightarrow> [] | Some index \<Rightarrow> padZeros (toString2 index) 6)"

subsection \<open>The decoder as a function of the token's bits\<close>

text \<open>The field of \<open>w\<close> bits at position \<open>pos\<close>, and the step record at position \<open>pos\<close>.\<close>

definition fieldAt :: "string \<Rightarrow> nat \<Rightarrow> nat \<Rightarrow> nat" where
  "fieldAt b pos w = parseInt2 (take w (drop pos b))"

definition stepAt :: "string \<Rightarrow> nat \<Rightarrow> ScenarioStep" where
  "stepAt b pos =
     \<lparr>cycleTime = fieldAt b pos 5, setupTime = fieldAt b (pos + 5) 7,
      isSetupLocked = (fieldAt b (pos + 13) 1 = 1), isCycleLocked = (fieldAt b (pos + 12) 1 = 1)\<rparr>"

text \<open>The bits of the cleaned token: six for each of its characters.\<close>

definition tokenBits :: "string \<Rightarrow> string" where
  "tokenBits code = concat (map sixBits (removeSpaces (trim code)))"

text \<open>
  What the body of the \<^verbatim>\<open>try\<close> block computes, with the fields read at their fixed
  positions: version at 0, time unit at 2, step count at 4, batch size at 6, batch lock
  at 12, and step \<open>i\<close> at \<open>13 + 14 * i\<close>. Lemma \<open>parseScenarioCode_try_eq\<close> proves that
  the decoder computes exactly this.
\<close>

definition decodeSpec :: "string \<Rightarrow> error + ScenarioData option" where
  "decodeSpec code =
     (let cleanCode = removeSpaces (trim code);
          b = tokenBits code;
          stepCount = fieldAt b 4 2 + MIN_STEPS
      in if cleanCode = [] then Inr None
         else if \<not> list_all validChar cleanCode then Inl InvalidCharacter
         else if fieldAt b 0 2 \<noteq> 1 then Inr None
         else if fieldAt b 2 2 > 2 then Inr None
         else if length b < 13 + 14 * stepCount then Inl UnexpectedEndOfData
         else Inr (Some \<lparr>timeUnit = timeUnits ! fieldAt b 2 2,
                          steps = map (\<lambda>i. stepAt b (13 + 14 * i)) [0..<stepCount],
                          globalBatchSize = fieldAt b 6 6,
                          globalBatchLocked = (fieldAt b 12 1 = 1)\<rparr>))"

subsection \<open>The encoder's bit stream\<close>

text \<open>The 14 bits written for a step, the values the header takes from the first step, the
  13 bits of the header, and the whole stream that the writer holds at the end.\<close>

definition stepBits :: "StepParameters \<Rightarrow> string" where
  "stepBits step =
     binField 5 (min (cycleTime step) 31) @ binField 7 (min (setupTime step) 127)
     @ binField 1 (if isCycleLocked step then 1 else 0)
     @ binField 1 (if isSetupLocked step then 1 else 0)"

definition firstBatch :: "StepParameters list \<Rightarrow> nat" where
  "firstBatch stepList =
     (case stepList of [] \<Rightarrow> 10 | s # _ \<Rightarrow> if batchSize s = 0 then 10 else batchSize s)"

definition firstLocked :: "StepParameters list \<Rightarrow> bool" where
  "firstLocked stepList = (case stepList of [] \<Rightarrow> False | s # _ \<Rightarrow> isBatchLocked s)"

definition clampedCount :: "StepParameters list \<Rightarrow> nat" where
  "clampedCount stepList = min (max (length stepList) MIN_STEPS) MAX_STEPS"

definition headerBits :: "StepParameters list \<Rightarrow> TimeUnit \<Rightarrow> string" where
  "headerBits stepList unit =
     binField 2 1 @ binField 2 (unitMap unit) @ binField 2 (clampedCount stepList - MIN_STEPS)
     @ binField 6 (min (firstBatch stepList) 63)
     @ binField 1 (if firstLocked stepList then 1 else 0)"

definition scenarioBits :: "StepParameters list \<Rightarrow> TimeUnit \<Rightarrow> string" where
  "scenarioBits stepList unit = headerBits stepList unit @ concat (map stepBits stepList)"

subsection \<open>Steps before and after a round trip\<close>

text \<open>The part of a step that the format stores, as it is and with its two numbers clamped
  to their field widths.\<close>

definition timingOf :: "StepParameters \<Rightarrow> ScenarioStep" where
  "timingOf step =
     \<lparr>cycleTime = cycleTime step, setupTime = setupTime step,
      isSetupLocked = isSetupLocked step, isCycleLocked = isCycleLocked step\<rparr>"

definition clampStep :: "StepParameters \<Rightarrow> ScenarioStep" where
  "clampStep step =
     \<lparr>cycleTime = min (cycleTime step) 31, setupTime = min (setupTime step) 127,
      isSetupLocked = isSetupLocked step, isCycleLocked = isCycleLocked step\<rparr>"

text \<open>A decoded step completed with batch fields.\<close>

definition withBatch :: "nat \<Rightarrow> bool \<Rightarrow> ScenarioStep \<Rightarrow> StepParameters" where
  "withBatch n locked step =
     \<lparr>cycleTime = cycleTime step, setupTime = setupTime step,
      isSetupLocked = isSetupLocked step, isCycleLocked = isCycleLocked step,
      batchSize = n, isBatchLocked = locked\<rparr>"

text \<open>
  Two ways of encoding a decoded scenario again. \<open>reloadedSteps\<close> gives every step the
  scenario's global batch size and lock, which is how a step list with batch fields is
  rebuilt from a \<^verbatim>\<open>ScenarioData\<close>. \<open>bareSteps\<close> is \<^verbatim>\<open>d.steps\<close> handed to the encoder
  unchanged: its objects have neither a \<^verbatim>\<open>batchSize\<close> nor an \<^verbatim>\<open>isBatchLocked\<close>
  property, so the encoder reads \<^verbatim>\<open>undefined\<close> for both. It uses the two only in
  \<^verbatim>\<open>steps[0]?.batchSize || 10\<close> and \<^verbatim>\<open>steps[0]?.isBatchLocked ? 1 : 0\<close>, where
  \<^verbatim>\<open>undefined\<close> is falsy as 0 and \<^verbatim>\<open>false\<close> are, so that the absent fields are
  represented by 0 and \<open>False\<close>.
\<close>

definition reloadedSteps :: "ScenarioData \<Rightarrow> StepParameters list" where
  "reloadedSteps d = map (withBatch (globalBatchSize d) (globalBatchLocked d)) (steps d)"

definition bareSteps :: "ScenarioData \<Rightarrow> StepParameters list" where
  "bareSteps d = map (withBatch 0 False) (steps d)"

section \<open>Lemmas\<close>

lemma isBit_bitChar [simp]: "isBit (bitChar d)"
  by (simp add: isBit_def bitChar_def)

lemma length_binField [simp]: "length (binField w v) = w"
  by (induction w arbitrary: v) simp_all

lemma bits_binField [simp]: "list_all isBit (binField w v)"
  by (induction w arbitrary: v) simp_all

lemma binValue_Nil [simp]: "binValue [] = 0"
  by (simp add: binValue_def)

lemma binValue_snoc [simp]: "binValue (s @ [c]) = 2 * binValue s + (if c = CHR ''1'' then 1 else 0)"
  by (simp add: binValue_def)

lemma takeWhile_bits: "list_all isBit s \<Longrightarrow> takeWhile isBit s = s"
  by (induction s) simp_all

lemma parseInt2_bits: "list_all isBit s \<Longrightarrow> parseInt2 s = binValue s"
  by (simp add: parseInt2_def binValue_def takeWhile_bits)

lemma binValue_less: "binValue s < 2 ^ length s"
proof (induction s rule: rev_induct)
  case Nil
  show ?case by simp
next
  case (snoc c s)
  then show ?case by simp
qed

lemma length_takeWhile_le': "length (takeWhile P s) \<le> length s"
  by (induction s) simp_all

lemma parseInt2_less: "parseInt2 s < 2 ^ length s"
proof -
  have "parseInt2 s = binValue (takeWhile isBit s)"
    by (simp add: parseInt2_def binValue_def)
  also have "\<dots> < 2 ^ length (takeWhile isBit s)"
    by (rule binValue_less)
  also have "\<dots> \<le> (2::nat) ^ length s"
    by (rule power_increasing) (simp_all add: length_takeWhile_le')
  finally show ?thesis .
qed

lemma binValue_binField: "binValue (binField w v) = v mod 2 ^ w"
proof (induction w arbitrary: v)
  case 0
  show ?case by simp
next
  case (Suc w)
  have "v mod (2 * 2 ^ w) = 2 * (v div 2 mod 2 ^ w) + v mod 2"
    by (simp add: mod_mult2_eq)
  with Suc show ?case
    by (simp add: bitChar_def)
qed

lemma parseInt2_binField [simp]: "parseInt2 (binField w v) = v mod 2 ^ w"
  by (simp add: parseInt2_bits binValue_binField)

lemma binField_binValue: "list_all isBit g \<Longrightarrow> binField (length g) (binValue g) = g"
proof (induction g rule: rev_induct)
  case Nil
  show ?case by simp
next
  case (snoc c g)
  then show ?case
    by (auto simp: isBit_def bitChar_def)
qed

lemma binField_zero: "binField k 0 = replicate k (CHR ''0'')"
  by (induction k) (simp_all add: bitChar_def replicate_append_same)

lemma binField_pad: "v < 2 ^ w \<Longrightarrow> binField (k + w) v = replicate k (CHR ''0'') @ binField w v"
proof (induction w arbitrary: v)
  case 0
  then show ?case by (simp add: binField_zero)
next
  case (Suc w)
  then have "v div 2 < 2 ^ w"
    by (simp add: less_mult_imp_div_less mult.commute)
  with Suc.IH [of "v div 2"] show ?case by simp
qed

lemma binField_drop: "drop k (binField (k + w) v) = binField w v"
  by (induction w arbitrary: v) simp_all

lemma toString2_binField: "toString2 v = binField (length (toString2 v)) v"
proof (induction v rule: toString2.induct)
  case (1 n)
  show ?case
  proof (cases "n < 2")
    case True
    then have "toString2 n = [bitChar n]"
      by (simp add: toString2.simps)
    moreover from True have "n mod 2 = n" by simp
    ultimately show ?thesis by simp
  next
    case False
    then have eq: "toString2 n = toString2 (n div 2) @ [bitChar (n mod 2)]"
      by (subst toString2.simps) simp
    from False 1 have "toString2 (n div 2) = binField (length (toString2 (n div 2))) (n div 2)"
      by simp
    then show ?thesis
      by (simp add: eq)
  qed
qed

lemma toString2_bound: "0 < length (toString2 v) \<and> v < 2 ^ length (toString2 v)"
proof (induction v rule: toString2.induct)
  case (1 n)
  show ?case
  proof (cases "n < 2")
    case True
    then have "toString2 n = [bitChar n]"
      by (simp add: toString2.simps)
    with True show ?thesis by simp
  next
    case False
    then have eq: "toString2 n = toString2 (n div 2) @ [bitChar (n mod 2)]"
      by (subst toString2.simps) simp
    from False 1 have "n div 2 < 2 ^ length (toString2 (n div 2))"
      by simp
    then have "n < 2 * 2 ^ length (toString2 (n div 2))"
      by arith
    then show ?thesis
      by (simp add: eq)
  qed
qed

lemma toString2_length_le: "v < 2 ^ w \<Longrightarrow> 0 < w \<Longrightarrow> length (toString2 v) \<le> w"
proof (induction v arbitrary: w rule: toString2.induct)
  case (1 n)
  show ?case
  proof (cases "n < 2")
    case True
    then have "toString2 n = [bitChar n]"
      by (simp add: toString2.simps)
    with 1 show ?thesis by simp
  next
    case False
    then have eq: "toString2 n = toString2 (n div 2) @ [bitChar (n mod 2)]"
      by (subst toString2.simps) simp
    from 1 obtain w' where w: "w = Suc w'"
      by (cases w) auto
    with False 1(2) have "0 < w'"
      by (cases w') auto
    moreover from 1(2) w have "n div 2 < 2 ^ w'"
      by (simp add: less_mult_imp_div_less mult.commute)
    ultimately have "length (toString2 (n div 2)) \<le> w'"
      using 1(1) False by simp
    then show ?thesis
      by (simp add: eq w)
  qed
qed

lemma padZeros_eq: "padZeros s w = replicate (w - length s) (CHR ''0'') @ s"
proof (induction s w rule: padZeros.induct)
  case (1 binary width)
  show ?case
  proof (cases "length binary < width")
    case True
    then have "padZeros binary width = padZeros (CHR ''0'' # binary) width"
      by (subst padZeros.simps) simp
    also from True 1 have "\<dots> = replicate (width - Suc (length binary)) (CHR ''0'') @ CHR ''0'' # binary"
      by simp
    also have "\<dots> = replicate (Suc (width - Suc (length binary))) (CHR ''0'') @ binary"
      by (simp add: replicate_app_Cons_same)
    also from True have "Suc (width - Suc (length binary)) = width - length binary"
      by simp
    finally show ?thesis .
  next
    case False
    then show ?thesis
      by (subst padZeros.simps) simp
  qed
qed

lemma fieldBits_binField: "0 < w \<Longrightarrow> fieldBits v w = binField w v"
proof -
  assume w: "0 < w"
  let ?L = "length (toString2 v)"
  show ?thesis
  proof (cases "?L > w")
    case True
    then have "fieldBits v w = padZeros (drop (?L - w) (toString2 v)) w"
      using w by (simp add: fieldBits_def slice_last_def Let_def)
    also have "drop (?L - w) (toString2 v) = drop (?L - w) (binField ((?L - w) + w) v)"
      using True toString2_binField [of v] by simp
    also have "\<dots> = binField w v"
      by (rule binField_drop)
    finally show ?thesis
      by (simp add: padZeros_eq)
  next
    case False
    then have "fieldBits v w = replicate (w - ?L) (CHR ''0'') @ toString2 v"
      by (simp add: fieldBits_def padZeros_eq Let_def)
    also have "\<dots> = replicate (w - ?L) (CHR ''0'') @ binField ?L v"
      using toString2_binField [of v] by simp
    also have "\<dots> = binField ((w - ?L) + ?L) v"
      using toString2_bound [of v] by (simp add: binField_pad)
    finally show ?thesis
      using False by simp
  qed
qed

lemma BitWriter_write_eq:
  "0 < width \<Longrightarrow> BitWriter_write w v width = w\<lparr>BitWriter.bits := BitWriter.bits w @ binField width v\<rparr>"
  using fieldBits_binField [of width v]
  by (simp add: BitWriter_write_def fieldBits_def Let_def)

lemma length_CHARS [simp]: "length CHARS = 64"
  by (simp add: CHARS_def)

lemma distinct_CHARS: "distinct CHARS"
  by (simp add: CHARS_def)

lemma CHARS_no_space: "c \<in> set CHARS \<Longrightarrow> \<not> isSpace c"
  by (auto simp: CHARS_def isSpace_def)

lemma groups6_step: "xs \<noteq> [] \<Longrightarrow> groups6 xs = take 6 xs # groups6 (drop 6 xs)"
  by (cases xs) (simp_all add: groups6.simps(2))

lemma pad6_eq: "pad6 b = spec_pad6 b"
proof (induction b rule: pad6.induct)
  case (1 binary)
  show ?case
  proof (cases "length binary mod 6 = 0")
    case True
    then show ?thesis
      by (subst pad6.simps) (simp add: spec_pad6_def)
  next
    case False
    define m where "m = length binary mod 6"
    have m: "0 < m" "m < 6"
      using False by (simp_all add: m_def)
    have suc: "Suc (length binary) mod 6 = (if Suc m = 6 then 0 else Suc m)"
      unfolding m_def by (rule mod_Suc)
    from False have "pad6 binary = pad6 (binary @ ''0'')"
      by (subst pad6.simps) simp
    also from False 1 have "\<dots> = spec_pad6 (binary @ ''0'')"
      by simp
    also have "\<dots> = binary @ CHR ''0'' # replicate ((6 - Suc (length binary) mod 6) mod 6) (CHR ''0'')"
      by (simp add: spec_pad6_def)
    also have "CHR ''0'' # replicate ((6 - Suc (length binary) mod 6) mod 6) (CHR ''0'')
        = replicate (Suc ((6 - Suc (length binary) mod 6) mod 6)) (CHR ''0'')"
      by simp
    also have "Suc ((6 - Suc (length binary) mod 6) mod 6) = (6 - m) mod 6"
      using m suc by (auto split: if_splits)
    finally show ?thesis
      by (simp add: spec_pad6_def m_def)
  qed
qed

lemma length_spec_pad6: "length (spec_pad6 b) mod 6 = 0"
proof -
  define m where "m = length b mod 6"
  have "m < 6" by (simp add: m_def)
  then have "(m + (6 - m) mod 6) mod 6 = 0"
    by (cases "m = 0") simp_all
  then have "(length b + (6 - m) mod 6) mod 6 = 0"
    unfolding m_def by (metis mod_add_left_eq)
  then show ?thesis
    by (simp add: spec_pad6_def m_def)
qed

lemma length_spec_pad6_eq: "length (spec_pad6 b) = 6 * ((length b + 5) div 6)"
proof -
  define m where "m = length b mod 6"
  define q where "q = length b div 6"
  have l: "length b = 6 * q + m" and m: "m < 6"
    by (simp_all add: m_def q_def)
  have "length (spec_pad6 b) = 6 * q + m + (6 - m) mod 6"
    using l by (simp add: spec_pad6_def m_def)
  moreover have "(6 * q + m + 5) div 6 = (if m = 0 then q else Suc q)"
    using m by (auto simp: div_eq_0_iff)
  ultimately show ?thesis
    using l m by (auto split: if_splits)
qed

lemma substring_eq: "a \<le> b \<Longrightarrow> substring s a b = take (b - a) (drop a s)"
  by (auto simp: substring_def Let_def min_def max_def)

lemma segments_eq:
  "segments binary i result = result @ concat (map (\<lambda>g. CHARS_at (parseInt2 g)) (groups6 (drop i binary)))"
proof (induction binary i result rule: segments.induct)
  case (1 binary i result)
  show ?case
  proof (cases "i < length binary")
    case True
    then have ne: "drop i binary \<noteq> []"
      by simp
    from True have "segments binary i result
        = segments binary (i + 6) (result @ CHARS_at (parseInt2 (substring binary i (i + 6))))"
      by (subst segments.simps) (simp add: Let_def)
    also from True 1 have "\<dots> = (result @ CHARS_at (parseInt2 (substring binary i (i + 6))))
        @ concat (map (\<lambda>g. CHARS_at (parseInt2 g)) (groups6 (drop (i + 6) binary)))"
      by simp
    finally show ?thesis
      by (simp add: groups6_step [OF ne] substring_eq add.commute)
  next
    case False
    then show ?thesis
      by (subst segments.simps) simp
  qed
qed

lemma length_groups6: "g \<in> set (groups6 xs) \<Longrightarrow> length g \<le> 6"
proof (induction xs rule: groups6.induct)
  case 1
  then show ?case by simp
next
  case (2 x xs)
  then show ?case
    by (auto simp: groups6.simps(2))
qed

lemma length_groups6_exact: "length xs mod 6 = 0 \<Longrightarrow> g \<in> set (groups6 xs) \<Longrightarrow> length g = 6"
proof (induction xs rule: groups6.induct)
  case 1
  then show ?case by simp
next
  case (2 x xs)
  define n where "n = length (x # xs)"
  have n: "n mod 6 = 0" "0 < n"
    using 2(2) by (simp_all add: n_def)
  then have len: "6 \<le> n"
    by (cases "n < 6") simp_all
  then have "(n - 6) mod 6 = 0"
    using n le_mod_geq [of 6 n] by simp
  then have rest: "length (drop 6 (x # xs)) mod 6 = 0"
    unfolding n_def by (simp del: drop_Suc_Cons length_Cons)
  from 2(3) have "g = take 6 (x # xs) \<or> g \<in> set (groups6 (drop 6 (x # xs)))"
    by (simp add: groups6.simps(2) del: drop_Suc_Cons take_Suc_Cons)
  then show ?case
  proof
    assume "g = take 6 (x # xs)"
    with len show ?thesis
      unfolding n_def by (simp del: take_Suc_Cons length_Cons)
  next
    assume "g \<in> set (groups6 (drop 6 (x # xs)))"
    with 2(1) rest show ?thesis
      by blast
  qed
qed

lemma bits_groups6: "list_all isBit xs \<Longrightarrow> g \<in> set (groups6 xs) \<Longrightarrow> list_all isBit g"
proof (induction xs rule: groups6.induct)
  case 1
  then show ?case by simp
next
  case (2 x xs)
  have "list_all isBit (take 6 (x # xs))" "list_all isBit (drop 6 (x # xs))"
    using 2(2) by (auto simp: list_all_iff dest: in_set_takeD in_set_dropD)
  with 2 show ?case
    by (auto simp: groups6.simps(2) simp del: drop_Suc_Cons take_Suc_Cons)
qed

lemma concat_groups6: "concat (groups6 xs) = xs"
  by (induction xs rule: groups6.induct) (simp_all add: groups6.simps(2) del: drop_Suc_Cons take_Suc_Cons)

lemma length_concat_six: "list_all (\<lambda>g. length g = 6) gs \<Longrightarrow> length (concat gs) = 6 * length gs"
  by (induction gs) simp_all

lemma length_groups6_list: "length xs mod 6 = 0 \<Longrightarrow> length (groups6 xs) = length xs div 6"
proof -
  assume a: "length xs mod 6 = 0"
  have "list_all (\<lambda>g. length g = 6) (groups6 xs)"
    using length_groups6_exact [OF a] by (simp add: list_all_iff)
  then have "length (concat (groups6 xs)) = 6 * length (groups6 xs)"
    by (rule length_concat_six)
  then show ?thesis
    by (simp add: concat_groups6)
qed

lemma binaryStringToBase64_eq: "binaryStringToBase64 b = spec_binaryStringToBase64 b"
proof -
  have "binaryStringToBase64 b = concat (map (\<lambda>g. CHARS_at (parseInt2 g)) (groups6 (spec_pad6 b)))"
    by (simp add: binaryStringToBase64_def segments_eq pad6_eq)
  also have "map (\<lambda>g. CHARS_at (parseInt2 g)) (groups6 (spec_pad6 b))
      = map (\<lambda>g. [CHARS ! parseInt2 g]) (groups6 (spec_pad6 b))"
  proof (rule map_cong [OF refl])
    fix g assume "g \<in> set (groups6 (spec_pad6 b))"
    then have "length g \<le> 6"
      by (rule length_groups6)
    then have "(2::nat) ^ length g \<le> 2 ^ 6"
      by (intro power_increasing) simp_all
    with parseInt2_less [of g] have "parseInt2 g < 64"
      by simp
    then show "CHARS_at (parseInt2 g) = [CHARS ! parseInt2 g]"
      by (simp add: CHARS_at_def)
  qed
  also have "concat (map (\<lambda>g. [CHARS ! parseInt2 g]) (groups6 (spec_pad6 b)))
      = map (\<lambda>g. CHARS ! parseInt2 g) (groups6 (spec_pad6 b))"
    by (induction "groups6 (spec_pad6 b)") (simp_all add: concat_map_singleton)
  finally show ?thesis
    by (simp add: spec_binaryStringToBase64_def)
qed

lemma indexOf_None: "indexOf xs c = None \<longleftrightarrow> c \<notin> set xs"
  by (induction xs) auto

lemma indexOf_Some: "indexOf xs c = Some i \<Longrightarrow> i < length xs \<and> xs ! i = c"
  by (induction xs arbitrary: i) (auto split: if_splits)

lemma indexOf_nth: "distinct xs \<Longrightarrow> i < length xs \<Longrightarrow> indexOf xs (xs ! i) = Some i"
proof (induction xs arbitrary: i)
  case Nil
  then show ?case by simp
next
  case (Cons x xs)
  then show ?case
    by (cases i) auto
qed

lemma validChar_iff: "validChar c \<longleftrightarrow> c \<in> set CHARS"
  by (simp add: validChar_def indexOf_None)

lemma sixBits_index: "indexOf CHARS c = Some i \<Longrightarrow> sixBits c = binField 6 i"
proof -
  assume a: "indexOf CHARS c = Some i"
  then have "i < 2 ^ 6"
    using indexOf_Some [OF a] by simp
  then have "length (toString2 i) \<le> 6"
    by (rule toString2_length_le) simp
  then have "padZeros (toString2 i) 6 = fieldBits i 6"
    by (simp add: fieldBits_def Let_def)
  with a show ?thesis
    by (simp add: sixBits_def fieldBits_binField)
qed

lemma sixBits_valid: "validChar c \<Longrightarrow> length (sixBits c) = 6 \<and> list_all isBit (sixBits c)"
  by (auto simp: validChar_def sixBits_index)

lemma sixBits_nth: "i < 64 \<Longrightarrow> sixBits (CHARS ! i) = binField 6 i"
  by (rule sixBits_index) (simp add: indexOf_nth distinct_CHARS)

lemma symbols_eq:
  "symbols cs acc = (if list_all validChar cs then Inr (acc @ concat (map sixBits cs)) else Inl InvalidCharacter)"
proof (induction cs arbitrary: acc)
  case Nil
  show ?case by simp
next
  case (Cons c cs)
  show ?case
  proof (cases "indexOf CHARS c")
    case None
    then show ?thesis
      by (simp add: validChar_def)
  next
    case (Some i)
    then have "sixBits c = padZeros (toString2 i) 6" "validChar c"
      by (simp_all add: sixBits_def validChar_def)
    with Some Cons [of "acc @ sixBits c"] show ?thesis
      by simp
  qed
qed

lemma base64ToBinaryString_eq:
  "base64ToBinaryString cs =
     (if list_all validChar cs then Inr (concat (map sixBits cs)) else Inl InvalidCharacter)"
  by (simp add: base64ToBinaryString_def symbols_eq)

lemma length_tokenBits_aux: "list_all validChar cs \<Longrightarrow> length (concat (map sixBits cs)) = 6 * length cs"
  by (induction cs) (simp_all add: sixBits_valid)

lemma bits_tokenBits_aux: "list_all validChar cs \<Longrightarrow> list_all isBit (concat (map sixBits cs))"
  by (induction cs) (simp_all add: sixBits_valid)

lemma base64ToBinaryString_bits: "base64ToBinaryString cs = Inr b \<Longrightarrow> list_all isBit b \<and> length b = 6 * length cs"
  by (auto simp: base64ToBinaryString_eq bits_tokenBits_aux length_tokenBits_aux split: if_splits)

lemma valid_spec_encode: "list_all validChar (spec_binaryStringToBase64 b)"
proof -
  have "parseInt2 g < 64" if "g \<in> set (groups6 (spec_pad6 b))" for g
  proof -
    from that have "length g \<le> 6"
      by (rule length_groups6)
    then have "(2::nat) ^ length g \<le> 2 ^ 6"
      by (intro power_increasing) simp_all
    with parseInt2_less [of g] show ?thesis
      by simp
  qed
  then show ?thesis
    by (simp add: spec_binaryStringToBase64_def list_all_iff validChar_iff)
qed

lemma decode_groups:
  "list_all (\<lambda>g. length g = 6 \<and> list_all isBit g) gs \<Longrightarrow>
   concat (map sixBits (map (\<lambda>g. CHARS ! parseInt2 g) gs)) = concat gs"
proof (induction gs)
  case Nil
  show ?case by simp
next
  case (Cons g gs)
  then have g: "length g = 6" "list_all isBit g"
    by simp_all
  have "parseInt2 g < 2 ^ length g"
    by (rule parseInt2_less)
  with g have "sixBits (CHARS ! parseInt2 g) = binField 6 (parseInt2 g)"
    by (simp add: sixBits_nth)
  also have "\<dots> = g"
    using binField_binValue [OF g(2)] g by (simp add: parseInt2_bits)
  finally show ?case
    using Cons by simp
qed

lemma bits_replicate_zero: "list_all isBit (replicate k (CHR ''0''))"
  by (induction k) (simp_all add: isBit_def)

lemma bits_spec_pad6: "list_all isBit b \<Longrightarrow> list_all isBit (spec_pad6 b)"
  by (simp add: spec_pad6_def bits_replicate_zero)

lemma transform_roundtrip:
  "list_all isBit b \<Longrightarrow> base64ToBinaryString (binaryStringToBase64 b) = Inr (spec_pad6 b)"
proof -
  assume b: "list_all isBit b"
  have "list_all (\<lambda>g. length g = 6 \<and> list_all isBit g) (groups6 (spec_pad6 b))"
    using length_groups6_exact [OF length_spec_pad6] bits_groups6 [OF bits_spec_pad6 [OF b]]
    by (simp add: list_all_iff)
  then have "concat (map sixBits (map (\<lambda>g. CHARS ! parseInt2 g) (groups6 (spec_pad6 b))))
      = concat (groups6 (spec_pad6 b))"
    by (rule decode_groups)
  then have "concat (map sixBits (spec_binaryStringToBase64 b)) = spec_pad6 b"
    unfolding spec_binaryStringToBase64_def concat_groups6 .
  then show ?thesis
    by (simp add: base64ToBinaryString_eq binaryStringToBase64_eq valid_spec_encode)
qed

lemma length_binaryStringToBase64: "length (binaryStringToBase64 b) = (length b + 5) div 6"
  by (simp add: binaryStringToBase64_eq spec_binaryStringToBase64_def
      length_groups6_list [OF length_spec_pad6] length_spec_pad6_eq)

lemma clean_valid: "list_all validChar cs \<Longrightarrow> removeSpaces (trim cs) = cs"
proof -
  assume "list_all validChar cs"
  then have ns: "\<forall>c\<in>set cs. \<not> isSpace c"
    by (auto simp: list_all_iff validChar_iff dest: CHARS_no_space)
  then have "dropWhile isSpace cs = cs"
    by (cases cs) simp_all
  moreover from ns have "dropWhile isSpace (rev cs) = rev cs"
    by (cases "rev cs") (simp, metis dropWhile_eq_self_iff list.sel(1) list.set_intros(1) set_rev)
  moreover from ns have "filter (\<lambda>c. \<not> isSpace c) cs = cs"
    by (simp add: filter_id_conv)
  ultimately show ?thesis
    by (simp add: trim_def removeSpaces_def)
qed

lemma BitReader_read_eq:
  "BitReader_read \<lparr>BitReader.bits = b, pointer = p\<rparr> w =
     (if length b < p + w then Inl UnexpectedEndOfData
      else Inr (fieldAt b p w, \<lparr>BitReader.bits = b, pointer = p + w\<rparr>))"
  by (simp add: BitReader_read_def fieldAt_def substring_eq Let_def)

lemma map_upt_shift: "map f [0..<Suc n] = f 0 # map (\<lambda>i. f (Suc i)) [0..<n]"
proof -
  have "[0..<Suc n] = 0 # map Suc [0..<n]"
    by (simp add: upt_conv_Cons map_Suc_upt del: upt_Suc)
  then show ?thesis
    by (simp add: comp_def del: upt_Suc)
qed

lemma readSteps_short:
  "length b < p + 14 \<Longrightarrow>
   readSteps (Suc n) \<lparr>BitReader.bits = b, pointer = p\<rparr> acc = Inl UnexpectedEndOfData"
proof -
  assume short: "length b < p + 14"
  have a1: "BitReader_read \<lparr>BitReader.bits = b, pointer = p\<rparr> 5
      = (if length b < p + 5 then Inl UnexpectedEndOfData
         else Inr (fieldAt b p 5, \<lparr>BitReader.bits = b, pointer = p + 5\<rparr>))"
    by (rule BitReader_read_eq)
  have a2: "BitReader_read \<lparr>BitReader.bits = b, pointer = p + 5\<rparr> 7
      = (if length b < p + 12 then Inl UnexpectedEndOfData
         else Inr (fieldAt b (p + 5) 7, \<lparr>BitReader.bits = b, pointer = p + 12\<rparr>))"
    by (simp add: BitReader_read_eq)
  have a3: "BitReader_read \<lparr>BitReader.bits = b, pointer = p + 12\<rparr> 1
      = (if length b < p + 13 then Inl UnexpectedEndOfData
         else Inr (fieldAt b (p + 12) 1, \<lparr>BitReader.bits = b, pointer = p + 13\<rparr>))"
    by (simp add: BitReader_read_eq)
  have a4: "BitReader_read \<lparr>BitReader.bits = b, pointer = p + 13\<rparr> 1 = Inl UnexpectedEndOfData"
    using short by (simp add: BitReader_read_eq)
  show ?thesis
    by (simp only: readSteps.simps a1 a2 a3 a4 sum.case prod.case split: if_splits) simp
qed

lemma readSteps_step:
  "p + 14 \<le> length b \<Longrightarrow>
   readSteps (Suc n) \<lparr>BitReader.bits = b, pointer = p\<rparr> acc
     = readSteps n \<lparr>BitReader.bits = b, pointer = p + 14\<rparr> (acc @ [stepAt b p])"
proof -
  assume long: "p + 14 \<le> length b"
  have a1: "BitReader_read \<lparr>BitReader.bits = b, pointer = p\<rparr> 5
      = Inr (fieldAt b p 5, \<lparr>BitReader.bits = b, pointer = p + 5\<rparr>)"
    using long by (simp add: BitReader_read_eq)
  have a2: "BitReader_read \<lparr>BitReader.bits = b, pointer = p + 5\<rparr> 7
      = Inr (fieldAt b (p + 5) 7, \<lparr>BitReader.bits = b, pointer = p + 12\<rparr>)"
    using long by (simp add: BitReader_read_eq)
  have a3: "BitReader_read \<lparr>BitReader.bits = b, pointer = p + 12\<rparr> 1
      = Inr (fieldAt b (p + 12) 1, \<lparr>BitReader.bits = b, pointer = p + 13\<rparr>)"
    using long by (simp add: BitReader_read_eq)
  have a4: "BitReader_read \<lparr>BitReader.bits = b, pointer = p + 13\<rparr> 1
      = Inr (fieldAt b (p + 13) 1, \<lparr>BitReader.bits = b, pointer = p + 14\<rparr>)"
    using long by (simp add: BitReader_read_eq)
  show ?thesis
    by (simp only: readSteps.simps a1 a2 a3 a4 sum.case prod.case stepAt_def)
qed

lemma readSteps_eq:
  "p \<le> length b \<Longrightarrow>
   readSteps n \<lparr>BitReader.bits = b, pointer = p\<rparr> acc =
     (if length b < p + 14 * n then Inl UnexpectedEndOfData
      else Inr (acc @ map (\<lambda>i. stepAt b (p + 14 * i)) [0..<n],
                \<lparr>BitReader.bits = b, pointer = p + 14 * n\<rparr>))"
proof (induction n arbitrary: p acc)
  case 0
  then show ?case by simp
next
  case (Suc n)
  show ?case
  proof (cases "length b < p + 14")
    case True
    then have "length b < p + 14 * Suc n"
      by simp
    with readSteps_short [OF True] show ?thesis
      by (simp only: if_True)
  next
    case False
    then have "readSteps (Suc n) \<lparr>BitReader.bits = b, pointer = p\<rparr> acc
        = readSteps n \<lparr>BitReader.bits = b, pointer = p + 14\<rparr> (acc @ [stepAt b p])"
      by (intro readSteps_step) simp
    also have "\<dots> = (if length b < p + 14 + 14 * n then Inl UnexpectedEndOfData
        else Inr ((acc @ [stepAt b p]) @ map (\<lambda>i. stepAt b (p + 14 + 14 * i)) [0..<n],
                  \<lparr>BitReader.bits = b, pointer = p + 14 + 14 * n\<rparr>))"
      using False by (intro Suc.IH) simp
    also have "\<dots> = (if length b < p + 14 * Suc n then Inl UnexpectedEndOfData
        else Inr (acc @ map (\<lambda>i. stepAt b (p + 14 * i)) [0..<Suc n],
                  \<lparr>BitReader.bits = b, pointer = p + 14 * Suc n\<rparr>))"
      by (simp add: map_upt_shift add.assoc del: upt_Suc)
    finally show ?thesis .
  qed
qed

lemma parseScenarioCode_try_eq: "parseScenarioCode_try code = decodeSpec code"
proof -
  define c where "c = removeSpaces (trim code)"
  define b where "b = tokenBits code"
  show ?thesis
  proof (cases "c \<noteq> [] \<and> list_all validChar c")
    case False
    then show ?thesis
      by (auto simp: parseScenarioCode_try_def decodeSpec_def Let_def base64ToBinaryString_eq
          c_def [symmetric])
  next
    case True
    then have len: "length b = 6 * length c"
      by (simp add: b_def tokenBits_def c_def [symmetric] length_tokenBits_aux)
    with True have six: "6 \<le> length b"
      by (cases c) simp_all
    have conv: "base64ToBinaryString c = Inr b"
      using True by (simp add: base64ToBinaryString_eq b_def tokenBits_def c_def)
    have r1: "BitReader_read (BitReader_new b) 2
        = Inr (fieldAt b 0 2, \<lparr>BitReader.bits = b, pointer = 2\<rparr>)"
      using six by (simp add: BitReader_read_eq BitReader_new_def)
    have r2: "BitReader_read \<lparr>BitReader.bits = b, pointer = 2\<rparr> 2
        = Inr (fieldAt b 2 2, \<lparr>BitReader.bits = b, pointer = 4\<rparr>)"
      using six by (simp add: BitReader_read_eq)
    have r3: "BitReader_read \<lparr>BitReader.bits = b, pointer = 4\<rparr> 2
        = Inr (fieldAt b 4 2, \<lparr>BitReader.bits = b, pointer = 6\<rparr>)"
      using six by (simp add: BitReader_read_eq)
    have r4: "BitReader_read \<lparr>BitReader.bits = b, pointer = 6\<rparr> 6
        = (if length b < 12 then Inl UnexpectedEndOfData
           else Inr (fieldAt b 6 6, \<lparr>BitReader.bits = b, pointer = 12\<rparr>))"
      by (simp add: BitReader_read_eq)
    have r5: "BitReader_read \<lparr>BitReader.bits = b, pointer = 12\<rparr> 1
        = (if length b < 13 then Inl UnexpectedEndOfData
           else Inr (fieldAt b 12 1, \<lparr>BitReader.bits = b, pointer = 13\<rparr>))"
      by (simp add: BitReader_read_eq)
    have rs: "\<not> length b < 13 \<Longrightarrow> readSteps n \<lparr>BitReader.bits = b, pointer = 13\<rparr> []
        = (if length b < 13 + 14 * n then Inl UnexpectedEndOfData
           else Inr (map (\<lambda>i. stepAt b (13 + 14 * i)) [0..<n],
                     \<lparr>BitReader.bits = b, pointer = 13 + 14 * n\<rparr>))" for n
      by (simp add: readSteps_eq)
    have "parseScenarioCode_try code =
      (if fieldAt b 0 2 \<noteq> 1 then Inr None
       else if fieldAt b 2 2 > 2 then Inr None
       else if length b < 13 + 14 * (fieldAt b 4 2 + MIN_STEPS) then Inl UnexpectedEndOfData
       else Inr (Some \<lparr>timeUnit = timeUnits ! fieldAt b 2 2,
                        steps = map (\<lambda>i. stepAt b (13 + 14 * i)) [0..<fieldAt b 4 2 + MIN_STEPS],
                        globalBatchSize = fieldAt b 6 6,
                        globalBatchLocked = (fieldAt b 12 1 = 1)\<rparr>))"
      using True
      by (simp add: parseScenarioCode_try_def Let_def c_def [symmetric] conv r1 r2 r3 r4 r5 rs
          del: readSteps.simps One_nat_def)
    then show ?thesis
      using True by (simp add: decodeSpec_def Let_def c_def [symmetric] b_def [symmetric])
  qed
qed

lemma parseInt2_bitChar [simp]: "parseInt2 [bitChar d] = (if d = 0 then 0 else 1)"
  by (simp add: parseInt2_def bitChar_def isBit_def)

lemma writeStep_bits: "BitWriter.bits (writeStep w s) = BitWriter.bits w @ stepBits s"
  by (simp add: writeStep_def BitWriter_write_eq stepBits_def)

lemma foldl_writeStep_bits:
  "BitWriter.bits (foldl writeStep w ss) = BitWriter.bits w @ concat (map stepBits ss)"
  by (induction ss arbitrary: w) (simp_all add: writeStep_bits)

lemma generateScenarioCode_eq:
  "generateScenarioCode stepList unit = binaryStringToBase64 (scenarioBits stepList unit)"
proof -
  have l: "(case stepList of [] \<Rightarrow> 0 | s # _ \<Rightarrow> if isBatchLocked s then 1 else (0::nat))
      = (if firstLocked stepList then 1 else 0)"
    by (simp add: firstLocked_def split: list.splits)
  show ?thesis
    unfolding generateScenarioCode_def Let_def l
    by (simp add: BitWriter_getData_def foldl_writeStep_bits BitWriter_write_eq BitWriter_new_def
        scenarioBits_def headerBits_def firstBatch_def clampedCount_def)
qed

lemma length_stepBits [simp]: "length (stepBits s) = 14"
  by (simp add: stepBits_def)

lemma length_headerBits [simp]: "length (headerBits ss u) = 13"
  by (simp add: headerBits_def)

lemma length_concat_stepBits [simp]: "length (concat (map stepBits ss)) = 14 * length ss"
  by (induction ss) simp_all

lemma length_scenarioBits: "length (scenarioBits ss u) = 13 + 14 * length ss"
  by (simp add: scenarioBits_def)

lemma bits_stepBits [simp]: "list_all isBit (stepBits s)"
  by (simp add: stepBits_def)

lemma bits_scenarioBits: "list_all isBit (scenarioBits ss u)"
proof -
  have "list_all isBit (concat (map stepBits ss))"
    by (induction ss) simp_all
  then show ?thesis
    by (simp add: scenarioBits_def headerBits_def)
qed

lemma valid_generateScenarioCode: "list_all validChar (generateScenarioCode ss u)"
  by (simp add: generateScenarioCode_eq binaryStringToBase64_eq valid_spec_encode)

lemma length_generateScenarioCode: "length (generateScenarioCode ss u) = (13 + 14 * length ss + 5) div 6"
  by (simp add: generateScenarioCode_eq length_binaryStringToBase64 length_scenarioBits)

lemma tokenBits_generate: "tokenBits (generateScenarioCode ss u) = spec_pad6 (scenarioBits ss u)"
proof -
  let ?t = "generateScenarioCode ss u"
  have "base64ToBinaryString ?t = Inr (spec_pad6 (scenarioBits ss u))"
    by (simp add: generateScenarioCode_eq transform_roundtrip bits_scenarioBits)
  moreover have "base64ToBinaryString ?t = Inr (concat (map sixBits ?t))"
    by (simp add: base64ToBinaryString_eq valid_generateScenarioCode)
  ultimately show ?thesis
    by (simp add: tokenBits_def clean_valid valid_generateScenarioCode)
qed

lemma fieldAt_prefix: "drop pos b = binField w v @ rest \<Longrightarrow> fieldAt b pos w = v mod 2 ^ w"
  by (simp add: fieldAt_def)

lemma drop_concat_stepBits:
  "drop (14 * i) (concat (map stepBits ss)) = concat (map stepBits (drop i ss))"
proof (induction ss arbitrary: i)
  case Nil
  show ?case by simp
next
  case (Cons s ss)
  show ?case
  proof (cases i)
    case 0
    then show ?thesis by simp
  next
    case (Suc j)
    with Cons [of j] show ?thesis
      by simp
  qed
qed

lemma stepAt_stepBits: "drop pos b = stepBits s @ rest \<Longrightarrow> stepAt b pos = clampStep s"
proof -
  assume a: "drop pos b = stepBits s @ rest"
  have d: "drop (pos + k) b = drop k (drop pos b)" for k
    by (simp add: add.commute)
  have m: "min (cycleTime s) 31 mod 32 = min (cycleTime s) 31"
    "min (setupTime s) 127 mod 128 = min (setupTime s) 127"
    by simp_all
  have f1: "fieldAt b pos 5 = min (cycleTime s) 31"
    using m by (simp add: fieldAt_def a stepBits_def)
  have f2: "fieldAt b (pos + 5) 7 = min (setupTime s) 127"
    using m by (simp add: fieldAt_def d a stepBits_def)
  have f3: "fieldAt b (pos + 12) 1 = (if isCycleLocked s then 1 else 0)"
    by (simp add: fieldAt_def d a stepBits_def)
  have f4: "fieldAt b (pos + 13) 1 = (if isSetupLocked s then 1 else 0)"
    by (simp add: fieldAt_def d a stepBits_def)
  show ?thesis
    by (simp add: stepAt_def clampStep_def f1 f2 f3 f4 del: One_nat_def)
qed

lemma stepAt_scenario:
  "i < length ss \<Longrightarrow> stepAt (spec_pad6 (scenarioBits ss u)) (13 + 14 * i) = clampStep (ss ! i)"
proof -
  assume i: "i < length ss"
  let ?pad = "replicate ((6 - length (scenarioBits ss u) mod 6) mod 6) (CHR ''0'')"
  have "drop (13 + 14 * i) (spec_pad6 (scenarioBits ss u))
      = drop (14 * i) (concat (map stepBits ss)) @ ?pad"
    using i by (simp add: spec_pad6_def scenarioBits_def)
  also have "\<dots> = concat (map stepBits (drop i ss)) @ ?pad"
    by (simp only: drop_concat_stepBits)
  also have "drop i ss = ss ! i # drop (Suc i) ss"
    using i by (simp add: Cons_nth_drop_Suc)
  finally have "drop (13 + 14 * i) (spec_pad6 (scenarioBits ss u))
      = stepBits (ss ! i) @ (concat (map stepBits (drop (Suc i) ss)) @ ?pad)"
    by simp
  then show ?thesis
    by (rule stepAt_stepBits)
qed

lemma header_fields:
  "fieldAt (spec_pad6 (scenarioBits ss u)) 0 2 = 1"
  "fieldAt (spec_pad6 (scenarioBits ss u)) 2 2 = unitMap u"
  "fieldAt (spec_pad6 (scenarioBits ss u)) 4 2 = clampedCount ss - MIN_STEPS"
  "fieldAt (spec_pad6 (scenarioBits ss u)) 6 6 = min (firstBatch ss) 63"
  "fieldAt (spec_pad6 (scenarioBits ss u)) 12 1 = (if firstLocked ss then 1 else 0)"
proof -
  let ?b = "spec_pad6 (scenarioBits ss u)"
  have u: "unitMap u mod 4 = unitMap u"
    by (cases u) (simp_all add: unitMap_def)
  have c: "(clampedCount ss - MIN_STEPS) mod 4 = clampedCount ss - MIN_STEPS"
    by (simp add: clampedCount_def MIN_STEPS_def MAX_STEPS_def)
  have m: "min (firstBatch ss) 63 mod 64 = min (firstBatch ss) 63"
    by simp
  show "fieldAt ?b 0 2 = 1"
    by (simp add: fieldAt_def spec_pad6_def scenarioBits_def headerBits_def)
  show "fieldAt ?b 2 2 = unitMap u"
    using u by (simp add: fieldAt_def spec_pad6_def scenarioBits_def headerBits_def)
  show "fieldAt ?b 4 2 = clampedCount ss - MIN_STEPS"
    using c by (simp add: fieldAt_def spec_pad6_def scenarioBits_def headerBits_def)
  show "fieldAt ?b 6 6 = min (firstBatch ss) 63"
    using m by (simp add: fieldAt_def spec_pad6_def scenarioBits_def headerBits_def)
  show "fieldAt ?b 12 1 = (if firstLocked ss then 1 else 0)"
    by (simp add: fieldAt_def spec_pad6_def scenarioBits_def headerBits_def)
qed

lemma timeUnits_unitMap: "timeUnits ! unitMap u = u"
  by (cases u) (simp_all add: timeUnits_def unitMap_def)

lemma unitMap_le: "unitMap u \<le> 2"
  by (cases u) (simp_all add: unitMap_def)

lemma map_clamp_take:
  "k \<le> length ss \<Longrightarrow> map (\<lambda>i. clampStep (ss ! i)) [0..<k] = map clampStep (take k ss)"
  by (rule nth_equalityI) simp_all

lemma decode_generate:
  "MIN_STEPS \<le> length ss \<Longrightarrow>
   parseScenarioCode_try (generateScenarioCode ss u) =
     Inr (Some \<lparr>timeUnit = u, steps = map clampStep (take MAX_STEPS ss),
                 globalBatchSize = min (firstBatch ss) 63, globalBatchLocked = firstLocked ss\<rparr>)"
proof -
  assume n: "MIN_STEPS \<le> length ss"
  let ?t = "generateScenarioCode ss u" and ?b = "spec_pad6 (scenarioBits ss u)"
  have cnt: "clampedCount ss - MIN_STEPS + MIN_STEPS = min (length ss) MAX_STEPS"
    using n by (simp add: clampedCount_def MIN_STEPS_def MAX_STEPS_def)
  have ne: "?t \<noteq> []"
  proof
    assume "?t = []"
    then have "length ?t = 0" by simp
    then show False
      by (simp add: length_generateScenarioCode)
  qed
  have "length (scenarioBits ss u) \<le> length ?b"
    by (simp add: spec_pad6_def)
  then have enough: "\<not> length ?b < 13 + 14 * min (length ss) MAX_STEPS"
    by (simp add: length_scenarioBits)
  have st: "map (\<lambda>i. stepAt ?b (13 + 14 * i)) [0..<min (length ss) MAX_STEPS]
      = map clampStep (take MAX_STEPS ss)"
  proof -
    have "map (\<lambda>i. stepAt ?b (13 + 14 * i)) [0..<min (length ss) MAX_STEPS]
        = map (\<lambda>i. clampStep (ss ! i)) [0..<min (length ss) MAX_STEPS]"
      by (rule map_cong [OF refl]) (simp add: stepAt_scenario)
    also have "\<dots> = map clampStep (take (min (length ss) MAX_STEPS) ss)"
      by (rule map_clamp_take) simp
    finally show ?thesis
      by (simp add: min_def)
  qed
  show ?thesis
    using ne enough unitMap_le [of u]
    by (simp add: parseScenarioCode_try_eq decodeSpec_def Let_def clean_valid
        valid_generateScenarioCode tokenBits_generate header_fields cnt st timeUnits_unitMap
        del: One_nat_def)
qed

lemma decode_generate_short:
  "length ss < MIN_STEPS \<Longrightarrow>
   parseScenarioCode_try (generateScenarioCode ss u) = Inl UnexpectedEndOfData"
proof -
  assume n: "length ss < MIN_STEPS"
  let ?t = "generateScenarioCode ss u" and ?b = "spec_pad6 (scenarioBits ss u)"
  have cnt: "clampedCount ss - MIN_STEPS + MIN_STEPS = 2"
    using n by (simp add: clampedCount_def MIN_STEPS_def MAX_STEPS_def)
  have ne: "?t \<noteq> []"
  proof
    assume "?t = []"
    then have "length ?t = 0" by simp
    then show False
      by (simp add: length_generateScenarioCode)
  qed
  from n have "length ss \<le> 1"
    by (simp add: MIN_STEPS_def)
  then have "(13 + 14 * length ss + 5) div 6 \<le> 5"
    by arith
  then have short: "length ?b < 13 + 14 * 2"
    by (simp add: length_spec_pad6_eq length_scenarioBits)
  show ?thesis
    using ne short unitMap_le [of u]
    by (simp add: parseScenarioCode_try_eq decodeSpec_def Let_def clean_valid
        valid_generateScenarioCode tokenBits_generate header_fields cnt
        del: One_nat_def)
qed

lemma parseScenarioCode_eq:
  "parseScenarioCode code = (case decodeSpec code of Inl e \<Rightarrow> None | Inr result \<Rightarrow> result)"
  by (simp add: parseScenarioCode_def parseScenarioCode_try_eq)

lemma fieldAt_less: "fieldAt b pos w < 2 ^ w"
proof -
  have "fieldAt b pos w < 2 ^ length (take w (drop pos b))"
    unfolding fieldAt_def by (rule parseInt2_less)
  also have "\<dots> \<le> (2::nat) ^ w"
    by (rule power_increasing) simp_all
  finally show ?thesis .
qed

lemma BitWriter_write_bits:
  "0 < width \<Longrightarrow> list_all isBit (BitWriter.bits w) \<Longrightarrow>
   list_all isBit (BitWriter.bits (BitWriter_write w v width))"
  by (simp add: BitWriter_write_eq)

section \<open>Properties of the decoder\<close>

text \<open>
  C3. Decoding is total and fails in one way only. For every input string,
  \<open>parseScenarioCode\<close> returns \<open>None\<close> (the result \<^verbatim>\<open>null\<close>) when the cleaned token is
  empty, when it has a character outside the alphabet, when its bits are fewer than the
  13 bits of the header and the 14 bits of each of the steps that the count field
  announces, when the version field is not 1, or when the time unit field is above 2;
  in every other case it returns a scenario with all its fields and as many steps as the
  count field announces. No exception leaves the function and no failure is told from
  another: the result is an \<open>option\<close>.
\<close>

theorem parseScenarioCode_total_uniform:
  "parseScenarioCode code =
     (let cleanCode = removeSpaces (trim code);
          b = tokenBits code;
          version = fieldAt b 0 2;
          unitVal = fieldAt b 2 2;
          stepCount = fieldAt b 4 2 + MIN_STEPS
      in if cleanCode = [] \<or> \<not> list_all validChar cleanCode
            \<or> length b < 13 + 14 * stepCount \<or> version \<noteq> 1 \<or> 2 < unitVal
         then None
         else Some \<lparr>timeUnit = timeUnits ! unitVal,
                     steps = map (\<lambda>i. stepAt b (13 + 14 * i)) [0..<stepCount],
                     globalBatchSize = fieldAt b 6 6,
                     globalBatchLocked = (fieldAt b 12 1 = 1)\<rparr>)"
  by (simp add: parseScenarioCode_eq decodeSpec_def Let_def)

text \<open>The five causes of failure and a success, each at a token: white space only, an
  exclamation mark, six characters where seven are needed, version 0, time unit 3, and
  a valid token with white space inside.\<close>

theorem parseScenarioCode_total_uniform_witness:
  "parseScenarioCode '' '' = None
   \<and> parseScenarioCode ''QKA!'' = None
   \<and> parseScenarioCode ''QKFFIy'' = None
   \<and> parseScenarioCode ''AKFFIyk'' = None
   \<and> parseScenarioCode ''cKFFIyk'' = None
   \<and> parseScenarioCode '' QKFF Iyk'' =
       Some \<lparr>timeUnit = Seconds,
             steps = [\<lparr>cycleTime = 5, setupTime = 10, isSetupLocked = True, isCycleLocked = False\<rparr>,
                      \<lparr>cycleTime = 3, setupTime = 20, isSetupLocked = False, isCycleLocked = True\<rparr>],
             globalBatchSize = 10, globalBatchLocked = False\<rparr>"
proof -
  have empty: "removeSpaces (trim '' '') = []"
    by code_simp
  have alphabet: "\<not> list_all validChar (removeSpaces (trim ''QKA!''))"
    by code_simp
  have truncated: "length (tokenBits ''QKFFIy'') < 13 + 14 * (fieldAt (tokenBits ''QKFFIy'') 4 2 + MIN_STEPS)"
    by code_simp
  have version: "fieldAt (tokenBits ''AKFFIyk'') 0 2 \<noteq> 1"
    by code_simp
  have unit: "2 < fieldAt (tokenBits ''cKFFIyk'') 2 2"
    by code_simp
  have ok: "removeSpaces (trim '' QKFF Iyk'') \<noteq> []"
    "list_all validChar (removeSpaces (trim '' QKFF Iyk''))"
    "\<not> length (tokenBits '' QKFF Iyk'') < 13 + 14 * (fieldAt (tokenBits '' QKFF Iyk'') 4 2 + MIN_STEPS)"
    "fieldAt (tokenBits '' QKFF Iyk'') 0 2 = 1"
    "\<not> 2 < fieldAt (tokenBits '' QKFF Iyk'') 2 2"
    by code_simp+
  have val: "\<lparr>timeUnit = timeUnits ! fieldAt (tokenBits '' QKFF Iyk'') 2 2,
       steps = map (\<lambda>i. stepAt (tokenBits '' QKFF Iyk'') (13 + 14 * i))
                 [0..<fieldAt (tokenBits '' QKFF Iyk'') 4 2 + MIN_STEPS],
       globalBatchSize = fieldAt (tokenBits '' QKFF Iyk'') 6 6,
       globalBatchLocked = (fieldAt (tokenBits '' QKFF Iyk'') 12 1 = 1)\<rparr>
     = \<lparr>timeUnit = Seconds,
        steps = [\<lparr>cycleTime = 5, setupTime = 10, isSetupLocked = True, isCycleLocked = False\<rparr>,
                 \<lparr>cycleTime = 3, setupTime = 20, isSetupLocked = False, isCycleLocked = True\<rparr>],
        globalBatchSize = 10, globalBatchLocked = False\<rparr>"
    by code_simp
  have "parseScenarioCode '' '' = None"
    using parseScenarioCode_total_uniform [of "'' ''"] empty
    by (simp only: Let_def simp_thms if_True)
  moreover have "parseScenarioCode ''QKA!'' = None"
    using parseScenarioCode_total_uniform [of "''QKA!''"] alphabet
    by (simp only: Let_def simp_thms if_True)
  moreover have "parseScenarioCode ''QKFFIy'' = None"
    using parseScenarioCode_total_uniform [of "''QKFFIy''"] truncated
    by (simp only: Let_def simp_thms if_True)
  moreover have "parseScenarioCode ''AKFFIyk'' = None"
    using parseScenarioCode_total_uniform [of "''AKFFIyk''"] version
    by (simp only: Let_def simp_thms if_True)
  moreover have "parseScenarioCode ''cKFFIyk'' = None"
    using parseScenarioCode_total_uniform [of "''cKFFIyk''"] unit
    by (simp only: Let_def simp_thms if_True)
  moreover have "parseScenarioCode '' QKFF Iyk'' =
       Some \<lparr>timeUnit = Seconds,
             steps = [\<lparr>cycleTime = 5, setupTime = 10, isSetupLocked = True, isCycleLocked = False\<rparr>,
                      \<lparr>cycleTime = 3, setupTime = 20, isSetupLocked = False, isCycleLocked = True\<rparr>],
             globalBatchSize = 10, globalBatchLocked = False\<rparr>"
    using parseScenarioCode_total_uniform [of "'' QKFF Iyk''"] ok val
    by (simp only: Let_def simp_thms if_False)
  ultimately show ?thesis
    by (simp only: simp_thms)
qed

text \<open>
  C4. The version gate: when the text transform of the cleaned token gives the bits \<open>b\<close>
  and the first two bits of \<open>b\<close> have a value other than 1, \<open>parseScenarioCode\<close> returns
  \<open>None\<close>, whatever the rest of the token holds.
\<close>

theorem version_gate:
  assumes "base64ToBinaryString (removeSpaces (trim code)) = Inr b"
    and "parseInt2 (take 2 b) \<noteq> 1"
  shows "parseScenarioCode code = None"
proof -
  from assms(1) have valid: "list_all validChar (removeSpaces (trim code))"
    and b: "b = tokenBits code"
    by (auto simp: base64ToBinaryString_eq tokenBits_def split: if_splits)
  from assms(2) b have "fieldAt (tokenBits code) 0 2 \<noteq> 1"
    by (simp add: fieldAt_def)
  with valid show ?thesis
    by (simp add: parseScenarioCode_eq decodeSpec_def Let_def)
qed

text \<open>A token that is valid but for its version, which is 0.\<close>

theorem version_gate_witness:
  "base64ToBinaryString (removeSpaces (trim ''AKFFIyk''))
     = Inr ''000000001010000101000101001000110010100100''
   \<and> parseInt2 (take 2 ''000000001010000101000101001000110010100100'') = 0
   \<and> parseScenarioCode ''AKFFIyk'' = None"
proof -
  have bits: "base64ToBinaryString (removeSpaces (trim ''AKFFIyk''))
      = Inr ''000000001010000101000101001000110010100100''"
    by code_simp
  have version: "parseInt2 (take 2 ''000000001010000101000101001000110010100100'') = 0"
    by code_simp
  then have "parseInt2 (take 2 ''000000001010000101000101001000110010100100'') \<noteq> 1"
    by simp
  from version_gate [OF bits this] bits version show ?thesis
    by (simp only: simp_thms)
qed

text \<open>
  C9. The step count of a decoded scenario: whenever \<open>parseScenarioCode\<close> succeeds, the
  scenario it returns has between \<open>MIN_STEPS\<close> and \<open>MAX_STEPS\<close> steps, since the count is
  a two-bit field plus \<open>MIN_STEPS\<close>.
\<close>

theorem decoded_step_count:
  assumes "parseScenarioCode code = Some d"
  shows "MIN_STEPS \<le> length (steps d) \<and> length (steps d) \<le> MAX_STEPS"
proof -
  have "fieldAt (tokenBits code) 4 2 < 2 ^ 2"
    by (rule fieldAt_less)
  then have "fieldAt (tokenBits code) 4 2 + MIN_STEPS \<le> MAX_STEPS"
    by (simp add: MIN_STEPS_def MAX_STEPS_def)
  moreover from assms have "length (steps d) = fieldAt (tokenBits code) 4 2 + MIN_STEPS"
    by (auto simp: parseScenarioCode_eq decodeSpec_def Let_def split: if_splits)
  ultimately show ?thesis
    by simp
qed

theorem decoded_step_count_witness:
  "parseScenarioCode ''QKFFIyk'' =
     Some \<lparr>timeUnit = Seconds,
           steps = [\<lparr>cycleTime = 5, setupTime = 10, isSetupLocked = True, isCycleLocked = False\<rparr>,
                    \<lparr>cycleTime = 3, setupTime = 20, isSetupLocked = False, isCycleLocked = True\<rparr>],
           globalBatchSize = 10, globalBatchLocked = False\<rparr>
   \<and> MIN_STEPS \<le> length (steps \<lparr>timeUnit = Seconds,
           steps = [\<lparr>cycleTime = 5, setupTime = 10, isSetupLocked = True, isCycleLocked = False\<rparr>,
                    \<lparr>cycleTime = 3, setupTime = 20, isSetupLocked = False, isCycleLocked = True\<rparr>],
           globalBatchSize = 10, globalBatchLocked = False\<rparr>)
   \<and> length (steps \<lparr>timeUnit = Seconds,
           steps = [\<lparr>cycleTime = 5, setupTime = 10, isSetupLocked = True, isCycleLocked = False\<rparr>,
                    \<lparr>cycleTime = 3, setupTime = 20, isSetupLocked = False, isCycleLocked = True\<rparr>],
           globalBatchSize = 10, globalBatchLocked = False\<rparr>) \<le> MAX_STEPS"
proof -
  have decoded: "parseScenarioCode ''QKFFIyk'' =
     Some \<lparr>timeUnit = Seconds,
           steps = [\<lparr>cycleTime = 5, setupTime = 10, isSetupLocked = True, isCycleLocked = False\<rparr>,
                    \<lparr>cycleTime = 3, setupTime = 20, isSetupLocked = False, isCycleLocked = True\<rparr>],
           globalBatchSize = 10, globalBatchLocked = False\<rparr>"
    by code_simp
  from decoded_step_count [OF decoded] decoded show ?thesis
    by blast
qed

section \<open>Properties of the bit stream and of the text transform\<close>

lemma parseInt2_toString2: "parseInt2 (toString2 v) = v"
proof -
  have "parseInt2 (toString2 v) = parseInt2 (binField (length (toString2 v)) v)"
    using toString2_binField [of v] by simp
  also have "\<dots> = v mod 2 ^ length (toString2 v)"
    by simp
  also have "\<dots> = v"
    using toString2_bound [of v] by simp
  finally show ?thesis .
qed

lemma fieldBits_cases:
  "length (toString2 v) \<le> w \<Longrightarrow> fieldBits v w = replicate (w - length (toString2 v)) (CHR ''0'') @ toString2 v"
  "0 < w \<Longrightarrow> w < length (toString2 v) \<Longrightarrow> fieldBits v w = drop (length (toString2 v) - w) (toString2 v)"
  by (simp_all add: fieldBits_def Let_def padZeros_eq slice_last_def)

text \<open>
  C7. The contract of \<open>BitWriter.write\<close>: for every value and every positive width, the
  call appends exactly \<open>width\<close> binary digits to the stream. They are the binary
  rendering of the value (\<open>toString2\<close>, whose value is the number itself), with zeros
  added on the left up to \<open>width\<close> when the rendering is not longer than \<open>width\<close>, and
  the last \<open>width\<close> digits of the rendering when it is longer; in both cases the field's
  value is the value modulo \<open>2 ^ width\<close>, so the high-order bits are dropped and nothing
  is rejected.
\<close>

theorem BitWriter_write_contract:
  assumes "0 < width"
  shows "\<exists>field. BitWriter.bits (BitWriter_write w val width) = BitWriter.bits w @ field
           \<and> length field = width \<and> list_all isBit field
           \<and> parseInt2 (toString2 val) = val
           \<and> parseInt2 field = val mod 2 ^ width
           \<and> (length (toString2 val) \<le> width \<longrightarrow>
                field = replicate (width - length (toString2 val)) (CHR ''0'') @ toString2 val)
           \<and> (width < length (toString2 val) \<longrightarrow>
                field = drop (length (toString2 val) - width) (toString2 val))"
proof (intro exI conjI impI)
  show "BitWriter.bits (BitWriter_write w val width) = BitWriter.bits w @ binField width val"
    using assms by (simp add: BitWriter_write_eq)
  show "length (binField width val) = width"
    by simp
  show "list_all isBit (binField width val)"
    by simp
  show "parseInt2 (toString2 val) = val"
    by (rule parseInt2_toString2)
  show "parseInt2 (binField width val) = val mod 2 ^ width"
    by simp
  show "binField width val = replicate (width - length (toString2 val)) (CHR ''0'') @ toString2 val"
    if "length (toString2 val) \<le> width"
    using that assms fieldBits_cases(1) [of val width] by (simp add: fieldBits_binField)
  show "binField width val = drop (length (toString2 val) - width) (toString2 val)"
    if "width < length (toString2 val)"
    using that assms fieldBits_cases(2) [of width val] by (simp add: fieldBits_binField)
qed

text \<open>The value 99 written in 5 bits keeps its low bits \<open>00011\<close>; the value 5 written in 6
  bits is padded to \<open>000101\<close>.\<close>

theorem BitWriter_write_contract_witness:
  "BitWriter.bits (BitWriter_write \<lparr>BitWriter.bits = ''01''\<rparr> 99 5) = ''0100011''
   \<and> BitWriter.bits (BitWriter_write \<lparr>BitWriter.bits = ''01''\<rparr> 5 6) = ''01000101''"
proof -
  have long: "(5::nat) < length (toString2 99)" "drop (length (toString2 99) - 5) (toString2 99) = ''00011''"
    by code_simp+
  have short: "length (toString2 5) \<le> (6::nat)"
    "replicate (6 - length (toString2 5)) (CHR ''0'') @ toString2 5 = ''000101''"
    by code_simp+
  have "BitWriter.bits (BitWriter_write \<lparr>BitWriter.bits = ''01''\<rparr> 99 5) = ''0100011''"
    using BitWriter_write_contract [of 5 "\<lparr>BitWriter.bits = ''01''\<rparr>" 99] long by auto
  moreover have "BitWriter.bits (BitWriter_write \<lparr>BitWriter.bits = ''01''\<rparr> 5 6) = ''01000101''"
    using BitWriter_write_contract [of 6 "\<lparr>BitWriter.bits = ''01''\<rparr>" 5] short by auto
  ultimately show ?thesis
    by simp
qed

text \<open>
  C8. The text transform: for every sequence of binary digits \<open>b\<close>,
  \<open>binaryStringToBase64 b\<close> is the string that the specification describes (\<open>b\<close> padded
  on the right with zeros to a multiple of 6, cut into groups of 6, each group of value
  below 64 mapped to the character of the alphabet at that index), and
  \<open>base64ToBinaryString\<close> gives back \<open>b\<close> followed by those padding zeros, a string whose
  length is a multiple of 6.
\<close>

theorem base_text_transform:
  assumes "list_all isBit b"
  shows "binaryStringToBase64 b = spec_binaryStringToBase64 b
         \<and> list_all (\<lambda>g. length g = 6 \<and> parseInt2 g < 64) (groups6 (spec_pad6 b))
         \<and> base64ToBinaryString (binaryStringToBase64 b) = Inr (spec_pad6 b)
         \<and> length (spec_pad6 b) mod 6 = 0"
proof (intro conjI)
  show "binaryStringToBase64 b = spec_binaryStringToBase64 b"
    by (rule binaryStringToBase64_eq)
  show "list_all (\<lambda>g. length g = 6 \<and> parseInt2 g < 64) (groups6 (spec_pad6 b))"
    unfolding list_all_iff
  proof
    fix g assume g: "g \<in> set (groups6 (spec_pad6 b))"
    then have "length g = 6"
      by (rule length_groups6_exact [OF length_spec_pad6])
    moreover have "parseInt2 g < 2 ^ length g"
      by (rule parseInt2_less)
    ultimately show "length g = 6 \<and> parseInt2 g < 64"
      by simp
  qed
  show "base64ToBinaryString (binaryStringToBase64 b) = Inr (spec_pad6 b)"
    using assms by (rule transform_roundtrip)
  show "length (spec_pad6 b) mod 6 = 0"
    by (rule length_spec_pad6)
qed

theorem base_text_transform_witness:
  "binaryStringToBase64 ''0100001'' = ''Qg''
   \<and> base64ToBinaryString (binaryStringToBase64 ''0100001'') = Inr ''010000100000''"
proof -
  have b: "list_all isBit ''0100001''"
    by code_simp
  have s: "spec_binaryStringToBase64 ''0100001'' = ''Qg''" "spec_pad6 ''0100001'' = ''010000100000''"
    by code_simp+
  from base_text_transform [OF b]
  have e: "binaryStringToBase64 ''0100001'' = spec_binaryStringToBase64 ''0100001''"
    and d: "base64ToBinaryString (binaryStringToBase64 ''0100001'') = Inr (spec_pad6 ''0100001'')"
    by blast+
  show ?thesis
    by (rule conjI [OF trans [OF e s(1)] d [unfolded s(2)]])
qed

section \<open>Properties of encoding followed by decoding\<close>

lemma clampStep_in_range:
  "cycleTime s \<le> 31 \<Longrightarrow> setupTime s \<le> 127 \<Longrightarrow> clampStep s = timingOf s"
  by (simp add: clampStep_def timingOf_def)

lemma parse_generate:
  "MIN_STEPS \<le> length ss \<Longrightarrow>
   parseScenarioCode (generateScenarioCode ss u) =
     Some \<lparr>timeUnit = u, steps = map clampStep (take MAX_STEPS ss),
           globalBatchSize = min (firstBatch ss) 63, globalBatchLocked = firstLocked ss\<rparr>"
  by (simp add: parseScenarioCode_def decode_generate)

lemma map_clampStep_in_range:
  "list_all (\<lambda>s. cycleTime s \<le> 31 \<and> setupTime s \<le> 127) ss \<Longrightarrow> map clampStep ss = map timingOf ss"
  by (induction ss) (simp_all add: clampStep_in_range)

lemma firstBatch_pos: "0 < firstBatch ss"
  by (simp add: firstBatch_def split: list.splits)

lemma clampStep_withBatch: "clampStep (withBatch n l (clampStep s)) = clampStep s"
  by (simp add: clampStep_def withBatch_def)

lemma sixBits_take:
  "list_all validChar cs \<Longrightarrow>
   concat (map sixBits (take k cs)) = take (6 * k) (concat (map sixBits cs))"
proof (induction cs arbitrary: k)
  case Nil
  show ?case by simp
next
  case (Cons c cs)
  show ?case
  proof (cases k)
    case 0
    then show ?thesis by simp
  next
    case (Suc j)
    from Cons.prems have "length (sixBits c) = 6" "list_all validChar cs"
      by (simp_all add: sixBits_valid)
    with Cons.IH [of j] Suc show ?thesis
      by simp
  qed
qed

lemma fieldAt_take: "pos + w \<le> m \<Longrightarrow> fieldAt (take m b) pos w = fieldAt b pos w"
  by (simp add: fieldAt_def drop_take min_def)

lemma valid_take: "list_all validChar cs \<Longrightarrow> list_all validChar (take k cs)"
  by (auto simp: list_all_iff dest: in_set_takeD)

lemma parse_empty: "parseScenarioCode [] = None"
  by (simp add: parseScenarioCode_eq decodeSpec_def trim_def removeSpaces_def)

text \<open>
  C1, as stated, fails for a first step whose batch size is 0: 0 lies within the six bits
  of the field, but \<^verbatim>\<open>steps[0]?.batchSize || 10\<close> takes a batch size of 0 for an absent
  one and writes the default 10, so that the decoded \<open>globalBatchSize\<close> is 10 and not 0.
\<close>

theorem roundtrip_zero_batch_counterexample:
  "parseScenarioCode (generateScenarioCode
     [\<lparr>cycleTime = 5, setupTime = 10, isSetupLocked = True, isCycleLocked = False,
       batchSize = 0, isBatchLocked = False\<rparr>,
      \<lparr>cycleTime = 3, setupTime = 20, isSetupLocked = False, isCycleLocked = True,
       batchSize = 0, isBatchLocked = False\<rparr>] Seconds)
   = Some \<lparr>timeUnit = Seconds,
           steps = [\<lparr>cycleTime = 5, setupTime = 10, isSetupLocked = True, isCycleLocked = False\<rparr>,
                    \<lparr>cycleTime = 3, setupTime = 20, isSetupLocked = False, isCycleLocked = True\<rparr>],
           globalBatchSize = 10, globalBatchLocked = False\<rparr>"
  by code_simp

text \<open>
  C1, amended. Round trip: for every step list of \<open>MIN_STEPS\<close> to \<open>MAX_STEPS\<close> steps, each
  with a cycle time of at most 31 and a set-up time of at most 127, and whose first step
  has a batch size between 1 and 63, decoding the encoded list succeeds and gives the
  time unit, the same number of steps with every step's cycle time, set-up time and two
  locks, and the first step's batch size and batch lock as the global batch fields. The
  batch fields of the other steps play no part.
\<close>

theorem roundtrip_in_range:
  assumes "MIN_STEPS \<le> length stepList" and "length stepList \<le> MAX_STEPS"
    and "list_all (\<lambda>s. cycleTime s \<le> 31 \<and> setupTime s \<le> 127) stepList"
    and "1 \<le> batchSize (hd stepList)" and "batchSize (hd stepList) \<le> 63"
  shows "parseScenarioCode (generateScenarioCode stepList unit) =
           Some \<lparr>timeUnit = unit, steps = map timingOf stepList,
                 globalBatchSize = batchSize (hd stepList),
                 globalBatchLocked = isBatchLocked (hd stepList)\<rparr>"
proof -
  from assms(1) obtain s rest where sl: "stepList = s # rest"
    by (cases stepList) (auto simp: MIN_STEPS_def)
  with assms(4,5) have "min (firstBatch stepList) 63 = batchSize (hd stepList)"
    "firstLocked stepList = isBatchLocked (hd stepList)"
    by (simp_all add: firstBatch_def firstLocked_def)
  moreover from assms(2) have "take MAX_STEPS stepList = stepList"
    by simp
  ultimately show ?thesis
    using parse_generate [OF assms(1), of unit] map_clampStep_in_range [OF assms(3)]
    by simp
qed

theorem roundtrip_in_range_witness:
  "parseScenarioCode (generateScenarioCode
     [\<lparr>cycleTime = 31, setupTime = 127, isSetupLocked = True, isCycleLocked = False,
       batchSize = 63, isBatchLocked = True\<rparr>,
      \<lparr>cycleTime = 0, setupTime = 0, isSetupLocked = False, isCycleLocked = True,
       batchSize = 7, isBatchLocked = False\<rparr>] Hours)
   = Some \<lparr>timeUnit = Hours,
           steps = [\<lparr>cycleTime = 31, setupTime = 127, isSetupLocked = True, isCycleLocked = False\<rparr>,
                    \<lparr>cycleTime = 0, setupTime = 0, isSetupLocked = False, isCycleLocked = True\<rparr>],
           globalBatchSize = 63, globalBatchLocked = True\<rparr>"
  using roundtrip_in_range [of
     "[\<lparr>cycleTime = 31, setupTime = 127, isSetupLocked = True, isCycleLocked = False,
        batchSize = 63, isBatchLocked = True\<rparr>,
       \<lparr>cycleTime = 0, setupTime = 0, isSetupLocked = False, isCycleLocked = True,
        batchSize = 7, isBatchLocked = False\<rparr>]" Hours]
  by (simp add: MIN_STEPS_def MAX_STEPS_def timingOf_def)

text \<open>
  C2, as stated, fails: the steps of a decoded scenario carry no batch fields, so encoding
  them again as they are writes the default batch size 10 and an open batch lock, and
  the second decoding differs from the first whenever the first had another batch size
  or a closed lock. Here the first decoding has batch size 20, locked.
\<close>

theorem reencode_decoded_steps_counterexample:
  "parseScenarioCode (generateScenarioCode
     [\<lparr>cycleTime = 5, setupTime = 10, isSetupLocked = True, isCycleLocked = False,
       batchSize = 20, isBatchLocked = True\<rparr>,
      \<lparr>cycleTime = 3, setupTime = 20, isSetupLocked = False, isCycleLocked = True,
       batchSize = 20, isBatchLocked = True\<rparr>] Minutes)
   = Some \<lparr>timeUnit = Minutes,
           steps = [\<lparr>cycleTime = 5, setupTime = 10, isSetupLocked = True, isCycleLocked = False\<rparr>,
                    \<lparr>cycleTime = 3, setupTime = 20, isSetupLocked = False, isCycleLocked = True\<rparr>],
           globalBatchSize = 20, globalBatchLocked = True\<rparr>
   \<and> parseScenarioCode (generateScenarioCode
     (bareSteps \<lparr>timeUnit = Minutes,
           steps = [\<lparr>cycleTime = 5, setupTime = 10, isSetupLocked = True, isCycleLocked = False\<rparr>,
                    \<lparr>cycleTime = 3, setupTime = 20, isSetupLocked = False, isCycleLocked = True\<rparr>],
           globalBatchSize = 20, globalBatchLocked = True\<rparr>) Minutes)
   = Some \<lparr>timeUnit = Minutes,
           steps = [\<lparr>cycleTime = 5, setupTime = 10, isSetupLocked = True, isCycleLocked = False\<rparr>,
                    \<lparr>cycleTime = 3, setupTime = 20, isSetupLocked = False, isCycleLocked = True\<rparr>],
           globalBatchSize = 10, globalBatchLocked = False\<rparr>"
  by code_simp

text \<open>
  C2, amended. For every step list of \<open>MIN_STEPS\<close> to \<open>MAX_STEPS\<close> steps, the encoded list
  decodes to a scenario \<open>d\<close>; encoding the steps of \<open>d\<close>, each completed with the global
  batch size and batch lock of \<open>d\<close>, and decoding again gives \<open>d\<close>; encoding the steps
  of \<open>d\<close> as they are gives \<open>d\<close> with the global batch size 10 and an open batch lock.
\<close>

theorem reencode_idempotent:
  assumes "MIN_STEPS \<le> length stepList" and "length stepList \<le> MAX_STEPS"
  shows "\<exists>d. parseScenarioCode (generateScenarioCode stepList unit) = Some d
           \<and> parseScenarioCode (generateScenarioCode (reloadedSteps d) (timeUnit d)) = Some d
           \<and> parseScenarioCode (generateScenarioCode (bareSteps d) (timeUnit d))
               = Some (d\<lparr>globalBatchSize := 10, globalBatchLocked := False\<rparr>)"
proof -
  let ?g = "min (firstBatch stepList) 63" and ?l = "firstLocked stepList"
  let ?d = "\<lparr>timeUnit = unit, steps = map clampStep stepList,
             globalBatchSize = ?g, globalBatchLocked = ?l\<rparr>"
  from assms(1) obtain s rest where sl: "stepList = s # rest"
    by (cases stepList) (auto simp: MIN_STEPS_def)
  from assms(2) have t: "take MAX_STEPS stepList = stepList"
    by simp
  have p: "parseScenarioCode (generateScenarioCode stepList unit) = Some ?d"
    using parse_generate [OF assms(1), of unit] t by simp
  have g: "0 < ?g" "?g \<le> 63"
    using firstBatch_pos [of stepList] by simp_all
  have r1: "MIN_STEPS \<le> length (reloadedSteps ?d)"
    "take MAX_STEPS (reloadedSteps ?d) = reloadedSteps ?d"
    using assms by (simp_all add: reloadedSteps_def)
  have r2: "firstBatch (reloadedSteps ?d) = ?g" "firstLocked (reloadedSteps ?d) = ?l"
    using g by (simp_all add: reloadedSteps_def firstBatch_def firstLocked_def sl withBatch_def)
  have r: "parseScenarioCode (generateScenarioCode (reloadedSteps ?d) (timeUnit ?d)) = Some ?d"
    unfolding parse_generate [OF r1(1)] r1(2) r2
    using g by (simp add: reloadedSteps_def clampStep_withBatch)
  have b1: "MIN_STEPS \<le> length (bareSteps ?d)"
    "take MAX_STEPS (bareSteps ?d) = bareSteps ?d"
    using assms by (simp_all add: bareSteps_def)
  have b2: "firstBatch (bareSteps ?d) = 10" "firstLocked (bareSteps ?d) = False"
    by (simp_all add: bareSteps_def firstBatch_def firstLocked_def sl withBatch_def)
  have b: "parseScenarioCode (generateScenarioCode (bareSteps ?d) (timeUnit ?d))
      = Some (?d\<lparr>globalBatchSize := 10, globalBatchLocked := False\<rparr>)"
    unfolding parse_generate [OF b1(1)] b1(2) b2
    by (simp add: bareSteps_def clampStep_withBatch)
  show ?thesis
    by (rule exI [of _ ?d]) (rule conjI p r b)+
qed

theorem reencode_idempotent_witness:
  "\<exists>d. parseScenarioCode (generateScenarioCode
     [\<lparr>cycleTime = 5, setupTime = 10, isSetupLocked = True, isCycleLocked = False,
       batchSize = 20, isBatchLocked = True\<rparr>,
      \<lparr>cycleTime = 3, setupTime = 20, isSetupLocked = False, isCycleLocked = True,
       batchSize = 20, isBatchLocked = True\<rparr>] Minutes) = Some d
     \<and> parseScenarioCode (generateScenarioCode (reloadedSteps d) (timeUnit d)) = Some d"
proof -
  let ?c = "[\<lparr>cycleTime = 5, setupTime = 10, isSetupLocked = True, isCycleLocked = False,
       batchSize = 20, isBatchLocked = True\<rparr>,
      \<lparr>cycleTime = 3, setupTime = 20, isSetupLocked = False, isCycleLocked = True,
       batchSize = 20, isBatchLocked = True\<rparr>]"
  have h: "MIN_STEPS \<le> length ?c" "length ?c \<le> MAX_STEPS"
    by (simp_all add: MIN_STEPS_def MAX_STEPS_def)
  from reencode_idempotent [OF h, of Minutes] obtain d
    where d: "parseScenarioCode (generateScenarioCode ?c Minutes) = Some d
      \<and> parseScenarioCode (generateScenarioCode (reloadedSteps d) (timeUnit d)) = Some d
      \<and> parseScenarioCode (generateScenarioCode (bareSteps d) (timeUnit d))
          = Some (d\<lparr>globalBatchSize := 10, globalBatchLocked := False\<rparr>)" ..
  then have "parseScenarioCode (generateScenarioCode ?c Minutes) = Some d
      \<and> parseScenarioCode (generateScenarioCode (reloadedSteps d) (timeUnit d)) = Some d"
    by (simp only: simp_thms)
  then show ?thesis
    by (rule exI [of _ d])
qed

text \<open>
  C5. Clamping on encode: for every step list of \<open>MIN_STEPS\<close> to \<open>MAX_STEPS\<close> steps,
  whatever the values of its fields, the encoder produces a token that decodes, and
  step \<open>i\<close> decodes to the minimum of its cycle time and 31 and the minimum of its set-up
  time and 127; a first step with a positive batch size decodes to a global batch size
  of the minimum of that size and 63. So a cycle time of 99 decodes to 31, a set-up time
  of 200 to 127 and a batch size of 70 to 63, as the witness shows.
\<close>

theorem clamping_on_encode:
  assumes "MIN_STEPS \<le> length stepList" and "length stepList \<le> MAX_STEPS"
    and "i < length stepList"
  shows "\<exists>d. parseScenarioCode (generateScenarioCode stepList unit) = Some d
           \<and> length (steps d) = length stepList
           \<and> cycleTime (steps d ! i) = min (cycleTime (stepList ! i)) 31
           \<and> setupTime (steps d ! i) = min (setupTime (stepList ! i)) 127
           \<and> (0 < batchSize (hd stepList) \<longrightarrow>
                globalBatchSize d = min (batchSize (hd stepList)) 63)"
proof -
  from assms(1) obtain s rest where sl: "stepList = s # rest"
    by (cases stepList) (auto simp: MIN_STEPS_def)
  from assms(2) have t: "take MAX_STEPS stepList = stepList"
    by simp
  let ?d = "\<lparr>timeUnit = unit, steps = map clampStep stepList,
             globalBatchSize = min (firstBatch stepList) 63,
             globalBatchLocked = firstLocked stepList\<rparr>"
  have p: "parseScenarioCode (generateScenarioCode stepList unit) = Some ?d"
    using parse_generate [OF assms(1), of unit] t by simp
  have l: "length (steps ?d) = length stepList"
    by simp
  have c: "cycleTime (steps ?d ! i) = min (cycleTime (stepList ! i)) 31"
    and u: "setupTime (steps ?d ! i) = min (setupTime (stepList ! i)) 127"
    using assms(3) by (simp_all add: clampStep_def)
  have b: "0 < batchSize (hd stepList) \<longrightarrow>
      globalBatchSize ?d = min (batchSize (hd stepList)) 63"
    by (simp add: firstBatch_def sl)
  show ?thesis
    by (rule exI [of _ ?d]) (rule conjI p l c u b)+
qed

theorem clamping_on_encode_witness:
  "\<exists>d. parseScenarioCode (generateScenarioCode
     [\<lparr>cycleTime = 99, setupTime = 200, isSetupLocked = True, isCycleLocked = False,
       batchSize = 70, isBatchLocked = True\<rparr>,
      \<lparr>cycleTime = 3, setupTime = 20, isSetupLocked = False, isCycleLocked = True,
       batchSize = 7, isBatchLocked = False\<rparr>] Hours) = Some d
     \<and> cycleTime (steps d ! 0) = 31 \<and> setupTime (steps d ! 0) = 127 \<and> globalBatchSize d = 63"
proof -
  let ?c = "[\<lparr>cycleTime = 99, setupTime = 200, isSetupLocked = True, isCycleLocked = False,
        batchSize = 70, isBatchLocked = True\<rparr>,
      \<lparr>cycleTime = 3, setupTime = 20, isSetupLocked = False, isCycleLocked = True,
        batchSize = 7, isBatchLocked = False\<rparr>]"
  have h: "MIN_STEPS \<le> length ?c" "length ?c \<le> MAX_STEPS" "0 < length ?c"
    by (simp_all add: MIN_STEPS_def MAX_STEPS_def)
  from clamping_on_encode [OF h, of Hours] obtain d
    where d: "parseScenarioCode (generateScenarioCode ?c Hours) = Some d
      \<and> length (steps d) = length ?c
      \<and> cycleTime (steps d ! 0) = min (cycleTime (?c ! 0)) 31
      \<and> setupTime (steps d ! 0) = min (setupTime (?c ! 0)) 127
      \<and> (0 < batchSize (hd ?c) \<longrightarrow> globalBatchSize d = min (batchSize (hd ?c)) 63)" ..
  then show ?thesis
    by (intro exI [of _ d]) simp
qed

text \<open>
  C6. Truncation: the token of a step list of \<open>MIN_STEPS\<close> to \<open>MAX_STEPS\<close> steps has
  exactly \<open>(13 + 14 * n + 5) div 6\<close> characters, the ceiling of \<open>(13 + 14 * n) / 6\<close>, and
  each of its prefixes with fewer characters is rejected by the decoder.
\<close>

theorem truncation_rejected:
  assumes "MIN_STEPS \<le> length stepList" and "length stepList \<le> MAX_STEPS"
    and "k < (13 + 14 * length stepList + 5) div 6"
  shows "length (generateScenarioCode stepList unit) = (13 + 14 * length stepList + 5) div 6
         \<and> parseScenarioCode (take k (generateScenarioCode stepList unit)) = None"
proof
  let ?t = "generateScenarioCode stepList unit"
  let ?b = "spec_pad6 (scenarioBits stepList unit)"
  let ?p = "take k ?t"
  show len: "length ?t = (13 + 14 * length stepList + 5) div 6"
    by (rule length_generateScenarioCode)
  show "parseScenarioCode ?p = None"
  proof (cases "k = 0")
    case True
    then show ?thesis
      by (simp add: parse_empty)
  next
    case False
    have valid: "list_all validChar ?p"
      by (rule valid_take [OF valid_generateScenarioCode])
    then have clean: "removeSpaces (trim ?p) = ?p"
      by (rule clean_valid)
    have "concat (map sixBits ?t) = ?b"
      using tokenBits_generate [of stepList unit]
      by (simp add: tokenBits_def clean_valid valid_generateScenarioCode)
    then have bits: "tokenBits ?p = take (6 * k) ?b"
      by (simp add: tokenBits_def clean sixBits_take valid_generateScenarioCode)
    from False have "4 + 2 \<le> 6 * k"
      by simp
    then have "fieldAt (tokenBits ?p) 4 2 = fieldAt ?b 4 2"
      unfolding bits by (rule fieldAt_take)
    also have "\<dots> = clampedCount stepList - MIN_STEPS"
      by (rule header_fields)
    finally have count: "fieldAt (tokenBits ?p) 4 2 + MIN_STEPS = length stepList"
      using assms(1,2) by (simp add: clampedCount_def MIN_STEPS_def MAX_STEPS_def)
    from assms(3) have "6 * k < 13 + 14 * length stepList"
      by arith
    then have "length (tokenBits ?p) < 13 + 14 * length stepList"
      unfolding bits by simp
    with count show ?thesis
      by (simp add: parseScenarioCode_eq decodeSpec_def Let_def)
  qed
qed

theorem truncation_rejected_witness:
  "length (generateScenarioCode
     [\<lparr>cycleTime = 5, setupTime = 10, isSetupLocked = True, isCycleLocked = False,
       batchSize = 10, isBatchLocked = False\<rparr>,
      \<lparr>cycleTime = 3, setupTime = 20, isSetupLocked = False, isCycleLocked = True,
       batchSize = 10, isBatchLocked = False\<rparr>] Seconds) = 7
   \<and> parseScenarioCode (take 6 (generateScenarioCode
     [\<lparr>cycleTime = 5, setupTime = 10, isSetupLocked = True, isCycleLocked = False,
       batchSize = 10, isBatchLocked = False\<rparr>,
      \<lparr>cycleTime = 3, setupTime = 20, isSetupLocked = False, isCycleLocked = True,
       batchSize = 10, isBatchLocked = False\<rparr>] Seconds)) = None"
  using truncation_rejected [of
     "[\<lparr>cycleTime = 5, setupTime = 10, isSetupLocked = True, isCycleLocked = False,
        batchSize = 10, isBatchLocked = False\<rparr>,
       \<lparr>cycleTime = 3, setupTime = 20, isSetupLocked = False, isCycleLocked = True,
        batchSize = 10, isBatchLocked = False\<rparr>]" 6 Seconds]
  by (simp add: MIN_STEPS_def MAX_STEPS_def)

text \<open>
  C10. Records and count: the encoder writes the 13 bits of the header and one record of
  14 bits for every step of its argument, while the count field at position 4 holds the
  clamped count less \<open>MIN_STEPS\<close>. Hence a list of fewer than \<open>MIN_STEPS\<close> steps gives a
  token that the decoder rejects, a read running out of bits; and a list of more than
  \<open>MAX_STEPS\<close> steps gives a token that decodes to the first \<open>MAX_STEPS\<close> steps as their
  records hold them (\<open>clampStep\<close>), which are those steps themselves when their cycle
  and set-up times are within 31 and 127. The records that follow are never read.
\<close>

theorem records_beyond_the_count:
  "generateScenarioCode stepList unit
     = binaryStringToBase64 (headerBits stepList unit @ concat (map stepBits stepList))
   \<and> list_all (\<lambda>s. length (stepBits s) = 14) stepList
   \<and> fieldAt (headerBits stepList unit) 4 2 = min (max (length stepList) MIN_STEPS) MAX_STEPS - MIN_STEPS
   \<and> (length stepList < MIN_STEPS \<longrightarrow>
        parseScenarioCode_try (generateScenarioCode stepList unit) = Inl UnexpectedEndOfData
        \<and> parseScenarioCode (generateScenarioCode stepList unit) = None)
   \<and> (MAX_STEPS < length stepList \<longrightarrow>
        (\<exists>d. parseScenarioCode (generateScenarioCode stepList unit) = Some d
           \<and> timeUnit d = unit
           \<and> steps d = map clampStep (take MAX_STEPS stepList)
           \<and> (list_all (\<lambda>s. cycleTime s \<le> 31 \<and> setupTime s \<le> 127) (take MAX_STEPS stepList)
                \<longrightarrow> steps d = map timingOf (take MAX_STEPS stepList))))"
proof (intro conjI impI)
  show "generateScenarioCode stepList unit
      = binaryStringToBase64 (headerBits stepList unit @ concat (map stepBits stepList))"
    by (simp add: generateScenarioCode_eq scenarioBits_def)
  show "list_all (\<lambda>s. length (stepBits s) = 14) stepList"
    by (simp add: list_all_iff)
  have "(clampedCount stepList - MIN_STEPS) mod 4 = clampedCount stepList - MIN_STEPS"
    by (simp add: clampedCount_def MIN_STEPS_def MAX_STEPS_def)
  then show "fieldAt (headerBits stepList unit) 4 2
      = min (max (length stepList) MIN_STEPS) MAX_STEPS - MIN_STEPS"
    by (simp add: fieldAt_def headerBits_def clampedCount_def)
next
  assume "length stepList < MIN_STEPS"
  then show "parseScenarioCode_try (generateScenarioCode stepList unit) = Inl UnexpectedEndOfData"
    by (rule decode_generate_short)
  then show "parseScenarioCode (generateScenarioCode stepList unit) = None"
    by (simp add: parseScenarioCode_def)
next
  assume "MAX_STEPS < length stepList"
  then have "MIN_STEPS \<le> length stepList"
    by (simp add: MIN_STEPS_def MAX_STEPS_def)
  then show "\<exists>d. parseScenarioCode (generateScenarioCode stepList unit) = Some d
           \<and> timeUnit d = unit
           \<and> steps d = map clampStep (take MAX_STEPS stepList)
           \<and> (list_all (\<lambda>s. cycleTime s \<le> 31 \<and> setupTime s \<le> 127) (take MAX_STEPS stepList)
                \<longrightarrow> steps d = map timingOf (take MAX_STEPS stepList))"
    by (simp add: parse_generate map_clampStep_in_range)
qed

text \<open>A list of one step, and a list of six steps of which five come back.\<close>

theorem records_beyond_the_count_witness:
  "parseScenarioCode_try (generateScenarioCode
     [\<lparr>cycleTime = 5, setupTime = 10, isSetupLocked = True, isCycleLocked = False,
       batchSize = 10, isBatchLocked = False\<rparr>] Hours) = Inl UnexpectedEndOfData
   \<and> parseScenarioCode (generateScenarioCode
     [\<lparr>cycleTime = 5, setupTime = 10, isSetupLocked = True, isCycleLocked = False,
       batchSize = 10, isBatchLocked = False\<rparr>] Hours) = None
   \<and> (\<exists>d. parseScenarioCode (generateScenarioCode
     [\<lparr>cycleTime = 1, setupTime = 10, isSetupLocked = True, isCycleLocked = False,
       batchSize = 10, isBatchLocked = False\<rparr>,
      \<lparr>cycleTime = 2, setupTime = 20, isSetupLocked = False, isCycleLocked = True,
       batchSize = 10, isBatchLocked = False\<rparr>,
      \<lparr>cycleTime = 3, setupTime = 30, isSetupLocked = True, isCycleLocked = True,
       batchSize = 10, isBatchLocked = False\<rparr>,
      \<lparr>cycleTime = 4, setupTime = 40, isSetupLocked = False, isCycleLocked = False,
       batchSize = 10, isBatchLocked = False\<rparr>,
      \<lparr>cycleTime = 5, setupTime = 50, isSetupLocked = True, isCycleLocked = False,
       batchSize = 10, isBatchLocked = False\<rparr>,
      \<lparr>cycleTime = 6, setupTime = 60, isSetupLocked = False, isCycleLocked = True,
       batchSize = 10, isBatchLocked = False\<rparr>] Minutes) = Some d
     \<and> steps d =
       [\<lparr>cycleTime = 1, setupTime = 10, isSetupLocked = True, isCycleLocked = False\<rparr>,
        \<lparr>cycleTime = 2, setupTime = 20, isSetupLocked = False, isCycleLocked = True\<rparr>,
        \<lparr>cycleTime = 3, setupTime = 30, isSetupLocked = True, isCycleLocked = True\<rparr>,
        \<lparr>cycleTime = 4, setupTime = 40, isSetupLocked = False, isCycleLocked = False\<rparr>,
        \<lparr>cycleTime = 5, setupTime = 50, isSetupLocked = True, isCycleLocked = False\<rparr>])"
proof -
  let ?one = "[\<lparr>cycleTime = 5, setupTime = 10, isSetupLocked = True, isCycleLocked = False,
       batchSize = 10, isBatchLocked = False\<rparr>]"
  let ?six = "[\<lparr>cycleTime = 1, setupTime = 10, isSetupLocked = True, isCycleLocked = False,
       batchSize = 10, isBatchLocked = False\<rparr>,
      \<lparr>cycleTime = 2, setupTime = 20, isSetupLocked = False, isCycleLocked = True,
       batchSize = 10, isBatchLocked = False\<rparr>,
      \<lparr>cycleTime = 3, setupTime = 30, isSetupLocked = True, isCycleLocked = True,
       batchSize = 10, isBatchLocked = False\<rparr>,
      \<lparr>cycleTime = 4, setupTime = 40, isSetupLocked = False, isCycleLocked = False,
       batchSize = 10, isBatchLocked = False\<rparr>,
      \<lparr>cycleTime = 5, setupTime = 50, isSetupLocked = True, isCycleLocked = False,
       batchSize = 10, isBatchLocked = False\<rparr>,
      \<lparr>cycleTime = 6, setupTime = 60, isSetupLocked = False, isCycleLocked = True,
       batchSize = 10, isBatchLocked = False\<rparr>]"
  have short: "length ?one < MIN_STEPS"
    by (simp add: MIN_STEPS_def)
  have long: "MAX_STEPS < length ?six"
    by (simp add: MAX_STEPS_def)
  note few = records_beyond_the_count [of ?one Hours,
      THEN conjunct2, THEN conjunct2, THEN conjunct2, THEN conjunct1, rule_format, OF short]
  note many = records_beyond_the_count [of ?six Minutes,
      THEN conjunct2, THEN conjunct2, THEN conjunct2, THEN conjunct2, rule_format, OF long]
  from many obtain d
    where d: "parseScenarioCode (generateScenarioCode ?six Minutes) = Some d
      \<and> timeUnit d = Minutes
      \<and> steps d = map clampStep (take MAX_STEPS ?six)
      \<and> (list_all (\<lambda>s. cycleTime s \<le> 31 \<and> setupTime s \<le> 127) (take MAX_STEPS ?six)
           \<longrightarrow> steps d = map timingOf (take MAX_STEPS ?six))" ..
  note p = d [THEN conjunct1]
  note st = d [THEN conjunct2, THEN conjunct2, THEN conjunct1]
  have v: "map clampStep (take MAX_STEPS ?six) =
       [\<lparr>cycleTime = 1, setupTime = 10, isSetupLocked = True, isCycleLocked = False\<rparr>,
        \<lparr>cycleTime = 2, setupTime = 20, isSetupLocked = False, isCycleLocked = True\<rparr>,
        \<lparr>cycleTime = 3, setupTime = 30, isSetupLocked = True, isCycleLocked = True\<rparr>,
        \<lparr>cycleTime = 4, setupTime = 40, isSetupLocked = False, isCycleLocked = False\<rparr>,
        \<lparr>cycleTime = 5, setupTime = 50, isSetupLocked = True, isCycleLocked = False\<rparr>]"
    by (simp add: MAX_STEPS_def clampStep_def)
  have "parseScenarioCode (generateScenarioCode ?six Minutes) = Some d
     \<and> steps d =
       [\<lparr>cycleTime = 1, setupTime = 10, isSetupLocked = True, isCycleLocked = False\<rparr>,
        \<lparr>cycleTime = 2, setupTime = 20, isSetupLocked = False, isCycleLocked = True\<rparr>,
        \<lparr>cycleTime = 3, setupTime = 30, isSetupLocked = True, isCycleLocked = True\<rparr>,
        \<lparr>cycleTime = 4, setupTime = 40, isSetupLocked = False, isCycleLocked = False\<rparr>,
        \<lparr>cycleTime = 5, setupTime = 50, isSetupLocked = True, isCycleLocked = False\<rparr>]"
    by (rule conjI [OF p trans [OF st v]])
  then have ex: "\<exists>d. parseScenarioCode (generateScenarioCode ?six Minutes) = Some d
     \<and> steps d =
       [\<lparr>cycleTime = 1, setupTime = 10, isSetupLocked = True, isCycleLocked = False\<rparr>,
        \<lparr>cycleTime = 2, setupTime = 20, isSetupLocked = False, isCycleLocked = True\<rparr>,
        \<lparr>cycleTime = 3, setupTime = 30, isSetupLocked = True, isCycleLocked = True\<rparr>,
        \<lparr>cycleTime = 4, setupTime = 40, isSetupLocked = False, isCycleLocked = False\<rparr>,
        \<lparr>cycleTime = 5, setupTime = 50, isSetupLocked = True, isCycleLocked = False\<rparr>]"
    by (rule exI [of _ d])
  show ?thesis
    by (rule conjI [OF few [THEN conjunct1] conjI [OF few [THEN conjunct2] ex]])
qed

end
